theory Spec2Isabelle
  imports Main "HOL-Library.Word"
begin

unbundle bit_operations_syntax

section \<open>Internal keys (package db)\<close>

text \<open>
  Go's \<open>[]byte\<close> is a list of 8-bit words, \<open>uint64\<close> a 64-bit word whose arithmetic
  wraps, \<open>InternalKeyKind\<close> (a \<open>uint8\<close>) an 8-bit word.
\<close>

type_synonym bytes = "8 word list"
type_synonym InternalKeyKind = "8 word"

abbreviation InternalKeyKindDelete :: InternalKeyKind where
  "InternalKeyKindDelete \<equiv> 0"
abbreviation InternalKeyKindSet :: InternalKeyKind where
  "InternalKeyKindSet \<equiv> 1"
abbreviation InternalKeyKindMerge :: InternalKeyKind where
  "InternalKeyKindMerge \<equiv> 2"
abbreviation InternalKeyKindLogData :: InternalKeyKind where
  "InternalKeyKindLogData \<equiv> 3"
abbreviation InternalKeyKindRangeDelete :: InternalKeyKind where
  "InternalKeyKindRangeDelete \<equiv> 15"
abbreviation InternalKeyKindMax :: InternalKeyKind where
  "InternalKeyKindMax \<equiv> 17"
abbreviation InternalKeyKindInvalid :: InternalKeyKind where
  "InternalKeyKindInvalid \<equiv> 255"

definition InternalKeySeqNumBatch :: "64 word" where
  "InternalKeySeqNumBatch = push_bit 55 1"

definition InternalKeySeqNumMax :: "64 word" where
  "InternalKeySeqNumMax = push_bit 56 1 - 1"

record InternalKey =
  UserKey :: bytes
  trailer :: "64 word"

definition MakeInternalKey :: "bytes \<Rightarrow> 64 word \<Rightarrow> InternalKeyKind \<Rightarrow> InternalKey" where
  "MakeInternalKey userKey seqNum kind =
     \<lparr>UserKey = userKey, trailer = push_bit 8 seqNum OR ucast kind\<rparr>"

definition SeqNum :: "InternalKey \<Rightarrow> 64 word" where
  "SeqNum k = drop_bit 8 (trailer k)"

definition Kind :: "InternalKey \<Rightarrow> InternalKeyKind" where
  "Kind k = ucast (trailer k AND 0xff)"

definition Trailer :: "InternalKey \<Rightarrow> 64 word" where
  "Trailer k = trailer k"

definition Valid :: "InternalKey \<Rightarrow> bool" where
  "Valid k = (Kind k \<le> InternalKeyKindMax)"

definition Size :: "InternalKey \<Rightarrow> nat" where
  "Size k = length (UserKey k) + 8"

definition Clone :: "InternalKey \<Rightarrow> InternalKey" where
  "Clone k = \<lparr>UserKey = [] @ UserKey k, trailer = trailer k\<rparr>"

text \<open>
  \<open>binary.LittleEndian.PutUint64\<close> and \<open>Uint64\<close> of Go's standard library: the least
  significant byte comes first. \<open>PutUint64\<close> is given here as the eight bytes it stores;
  \<open>Uint64\<close> reads the first eight bytes of its argument (Go panics on a shorter one,
  which \<open>DecodeInternalKey\<close> never passes).
\<close>

definition PutUint64 :: "64 word \<Rightarrow> bytes" where
  "PutUint64 v =
     [ucast v, ucast (drop_bit 8 v), ucast (drop_bit 16 v), ucast (drop_bit 24 v),
      ucast (drop_bit 32 v), ucast (drop_bit 40 v), ucast (drop_bit 48 v),
      ucast (drop_bit 56 v)]"

definition Uint64 :: "bytes \<Rightarrow> 64 word" where
  "Uint64 b =
     ucast (b ! 0) OR push_bit 8 (ucast (b ! 1)) OR push_bit 16 (ucast (b ! 2)) OR
     push_bit 24 (ucast (b ! 3)) OR push_bit 32 (ucast (b ! 4)) OR
     push_bit 40 (ucast (b ! 5)) OR push_bit 48 (ucast (b ! 6)) OR
     push_bit 56 (ucast (b ! 7))"

definition DecodeInternalKey :: "bytes \<Rightarrow> InternalKey" where
  "DecodeInternalKey encodedKey =
     (let n = int (length encodedKey) - 8 in
      if n < 0 then MakeInternalKey encodedKey 0 InternalKeyKindInvalid
      else \<lparr>UserKey = take (nat n) encodedKey,
            trailer = Uint64 (drop (nat n) encodedKey)\<rparr>)"

text \<open>
  \<open>Encode\<close> writes into a caller-supplied buffer. \<open>copy\<close> stores
  \<open>min (len buf) (len UserKey)\<close> bytes and returns that count \<open>i\<close>; \<open>PutUint64\<close>
  then needs eight bytes at \<open>buf[i:]\<close> and panics otherwise (\<open>None\<close>). Bytes of the
  buffer beyond the trailer are left as they were.
\<close>

definition Encode :: "InternalKey \<Rightarrow> bytes \<Rightarrow> bytes option" where
  "Encode k buf =
     (let i = min (length buf) (length (UserKey k));
          buf1 = take i (UserKey k) @ drop i buf
      in if length buf1 - i < 8 then None
         else Some (take i buf1 @ PutUint64 (trailer k) @ drop (i + 8) buf1))"

definition EncodeTrailer :: "InternalKey \<Rightarrow> bytes" where
  "EncodeTrailer k = PutUint64 (trailer k)"

text \<open>
  \<open>bytes.Compare\<close> of Go's standard library: lexicographic comparison of two byte
  slices, bytes read as unsigned; the result is -1, 0 or 1.
\<close>

fun bytes_Compare :: "bytes \<Rightarrow> bytes \<Rightarrow> int" where
  "bytes_Compare [] [] = 0"
| "bytes_Compare [] (y # ys) = -1"
| "bytes_Compare (x # xs) [] = 1"
| "bytes_Compare (x # xs) (y # ys) =
     (if x < y then -1 else if y < x then 1 else bytes_Compare xs ys)"

definition InternalCompare ::
  "(bytes \<Rightarrow> bytes \<Rightarrow> int) \<Rightarrow> InternalKey \<Rightarrow> InternalKey \<Rightarrow> int" where
  "InternalCompare userCmp a b =
     (if \<not> Valid a then
        (if Valid b then -1 else bytes_Compare (UserKey a) (UserKey b))
      else if \<not> Valid b then 1
      else if userCmp (UserKey a) (UserKey b) \<noteq> 0 then userCmp (UserKey a) (UserKey b)
      else if trailer a < trailer b then 1
      else if trailer a > trailer b then -1
      else 0)"

text \<open>A comparer for examples: the reverse of the bytewise order.\<close>

definition reverse_Compare :: "bytes \<Rightarrow> bytes \<Rightarrow> int" where
  "reverse_Compare a b = bytes_Compare b a"

text \<open>
  \<open>InternalKey.SetKind\<close> is called by the compaction iterator but its body is not part
  of the sources at hand. Modelled from the spec: missing method \<open>SetKind\<close>; the spec's
  merge-collapse rule emits the record "with kind=Set" under the sequence number of the
  newest Merge (scenario E4: \<open>a.Merge.4 ... a.Set.2\<close> gives \<open>a.Set.4\<close>), so the kind
  byte of the trailer is replaced and the sequence number kept.
\<close>

definition SetKind :: "InternalKey \<Rightarrow> InternalKeyKind \<Rightarrow> InternalKey" where
  "SetKind k kind = k\<lparr>trailer := (trailer k AND NOT 0xff) OR ucast kind\<rparr>"


section \<open>The compaction iterator (package pebble)\<close>

text \<open>
  The error value built by \<open>fmt.Errorf("invalid internal key kind: %d", kind)\<close>: the
  message is fixed, the kind printed is the argument.
\<close>

datatype error = InvalidInternalKeyKind InternalKeyKind

type_synonym entry = "InternalKey \<times> bytes"

text \<open>
  \<open>db.InternalIterator\<close> is an interface; none of its implementations is part of the
  sources at hand. Modelled from the spec: missing implementations of the merging input
  iterator, "a forward-only cursor over records ... already ordered", with the
  operations as the interface's comments give them. The cursor is the list of entries
  from the current position on: it is valid when the list is not empty, \<open>Key\<close> and
  \<open>Value\<close> read the head, \<open>Next\<close> moves to the following entry, and \<open>NextUserKey\<close>
  moves to the next entry "with a user-key greater than the current user key" under the
  comparer.
\<close>

definition iter_Valid :: "entry list \<Rightarrow> bool" where
  "iter_Valid it = (it \<noteq> [])"

definition iter_Next :: "entry list \<Rightarrow> entry list" where
  "iter_Next it = tl it"

definition iter_NextUserKey :: "(bytes \<Rightarrow> bytes \<Rightarrow> int) \<Rightarrow> entry list \<Rightarrow> entry list" where
  "iter_NextUserKey c it =
     (case it of [] \<Rightarrow> []
      | e # rest \<Rightarrow> dropWhile (\<lambda>e'. \<not> 0 < c (UserKey (fst e')) (UserKey (fst e))) rest)"

text \<open>
  The struct \<open>compactionIter\<close>. \<open>keyBuf\<close> and \<open>valueBuf\<close> are the backing arrays
  into which \<open>mergeNext\<close> copies the current user key and value before it advances the
  wrapped iterator; the model keeps the copied bytes in \<open>key\<close> and \<open>value\<close> themselves.
  \<open>merge\<close> is a \<open>db.Merge\<close>: user key, existing value, new value and a scratch buffer
  (always \<open>nil\<close> here).
\<close>

record compactionIter =
  cmp :: "bytes \<Rightarrow> bytes \<Rightarrow> int"
  merge :: "bytes \<Rightarrow> bytes \<Rightarrow> bytes \<Rightarrow> bytes \<Rightarrow> bytes"
  iter :: "entry list"
  err :: "error option"
  key :: InternalKey
  "value" :: bytes
  valid :: bool
  skip :: bool
  elideTombstone :: "bytes \<Rightarrow> bool"

lemma length_iter_NextUserKey:
  "length (iter_NextUserKey c (e # rest)) < Suc (length rest)"
  by (simp add: iter_NextUserKey_def less_Suc_eq_le length_dropWhile_le)

lemma length_iter_Next: "iter_Next it = e # rest \<Longrightarrow> Suc (length rest) < length it"
  by (cases it) (auto simp: iter_Next_def)

text \<open>
  The \<open>for\<close> loop of \<open>mergeNext\<close>: advance the wrapped iterator, stop when it is
  exhausted or on another user key (clearing \<open>skip\<close>), on a Delete, on a Set (merging
  it in and turning the kind into Set) or on an unknown kind (latching the error, whose
  message prints the kind of \<open>i.key\<close>, not of the entry met); go on over a Merge.
\<close>

function mergeNext_loop :: "compactionIter \<Rightarrow> bool \<times> compactionIter" where
  "mergeNext_loop i =
     (case iter_Next (iter i) of
        [] \<Rightarrow> (True, i\<lparr>iter := [], skip := False\<rparr>)
      | e # rest \<Rightarrow>
          if cmp i (UserKey (key i)) (UserKey (fst e)) \<noteq> 0 then
            (True, i\<lparr>iter := e # rest, skip := False\<rparr>)
          else if Kind (fst e) = InternalKeyKindDelete then
            (True, i\<lparr>iter := e # rest\<rparr>)
          else if Kind (fst e) = InternalKeyKindSet then
            (True, i\<lparr>iter := e # rest,
                     value := merge i (UserKey (key i)) (value i) (snd e) [],
                     key := SetKind (key i) InternalKeyKindSet\<rparr>)
          else if Kind (fst e) = InternalKeyKindMerge then
            mergeNext_loop (i\<lparr>iter := e # rest,
                               value := merge i (UserKey (key i)) (value i) (snd e) []\<rparr>)
          else
            (False, i\<lparr>iter := e # rest,
                      err := Some (InvalidInternalKeyKind (Kind (key i)))\<rparr>))"
  by pat_completeness auto
termination
  by (relation "measure (\<lambda>i. length (iter i))") (auto simp: length_iter_Next)

declare mergeNext_loop.simps [simp del]

text \<open>
  \<open>mergeNext\<close> is only called by \<open>Next\<close> with the wrapped iterator on an entry; on an
  exhausted iterator \<open>Key()\<close> is nil and Go would panic, which the first case stands for.
\<close>

definition mergeNext :: "compactionIter \<Rightarrow> bool \<times> compactionIter" where
  "mergeNext i =
     (case iter i of
        [] \<Rightarrow> (False, i)
      | e # rest \<Rightarrow>
          mergeNext_loop (i\<lparr>key := (key i)\<lparr>UserKey := UserKey (fst e)\<rparr>, value := snd e,
                             valid := True, skip := True\<rparr>))"

text \<open>The \<open>for i.iter.Valid()\<close> loop of \<open>Next\<close>, with its \<open>switch\<close> on the kind.\<close>

function Next_loop :: "compactionIter \<Rightarrow> bool \<times> compactionIter" where
  "Next_loop i =
     (case iter i of
        [] \<Rightarrow> (False, i)
      | e # rest \<Rightarrow>
          if Kind (fst e) = InternalKeyKindDelete then
            (if elideTombstone i (UserKey (fst e)) then
               Next_loop (i\<lparr>key := fst e, iter := iter_NextUserKey (cmp i) (iter i)\<rparr>)
             else (True, i\<lparr>key := fst e, value := snd e, valid := True, skip := True\<rparr>))
          else if Kind (fst e) = InternalKeyKindSet then
            (True, i\<lparr>key := fst e, value := snd e, valid := True, skip := True\<rparr>)
          else if Kind (fst e) = InternalKeyKindMerge then
            mergeNext (i\<lparr>key := fst e\<rparr>)
          else
            (False, i\<lparr>key := fst e, err := Some (InvalidInternalKeyKind (Kind (fst e)))\<rparr>))"
  by pat_completeness auto
termination
  by (relation "measure (\<lambda>i. length (iter i))") (auto simp: length_iter_NextUserKey)

declare Next_loop.simps [simp del]

definition Next :: "compactionIter \<Rightarrow> bool \<times> compactionIter" where
  "Next i =
     (if err i \<noteq> None then (False, i)
      else Next_loop
             ((if skip i then i\<lparr>skip := False, iter := iter_NextUserKey (cmp i) (iter i)\<rparr>
               else i)\<lparr>valid := False\<rparr>))"

text \<open>
  \<open>First\<close>: \<open>i.iter.First()\<close> puts the cursor on the first entry of the wrapped
  iterator, whose contents are the second argument, and \<open>Next\<close> is called once.
\<close>

definition First :: "compactionIter \<Rightarrow> entry list \<Rightarrow> compactionIter" where
  "First i input = (if err i \<noteq> None then i else snd (Next (i\<lparr>iter := input\<rparr>)))"

text \<open>
  The caller's loop is not part of the sources: it calls \<open>Next\<close> until a call
  reports false and reads \<open>Key()\<close> and \<open>Value()\<close> after each call that reports
  true. \<open>outputs\<close> is the list of records so read and \<open>final\<close> the iterator after
  the first call that reports false. Each successful call of \<open>Next\<close> uses up input,
  which the measure \<open>mu\<close> counts.
\<close>

definition mu :: "compactionIter \<Rightarrow> nat" where
  "mu i = 2 * length (iter i) + (if skip i then 0 else 1)"

lemma mergeNext_loop_length:
  "mergeNext_loop i = (True, i') \<Longrightarrow> iter i \<noteq> [] \<Longrightarrow> length (iter i') < length (iter i)"
proof (induction i rule: mergeNext_loop.induct)
  case (1 i)
  show ?case
  proof (cases "iter_Next (iter i)")
    case Nil
    with "1.prems" show ?thesis
      by (subst (asm) mergeNext_loop.simps) auto
  next
    case (Cons e rest)
    note len = length_iter_Next [OF Cons]
    show ?thesis
    proof (cases "cmp i (UserKey (key i)) (UserKey (fst e)) = 0 \<and> Kind (fst e) = InternalKeyKindMerge")
      case True
      with Cons "1.prems" have
        "mergeNext_loop (i\<lparr>iter := e # rest, value := merge i (UserKey (key i)) (value i) (snd e) []\<rparr>) = (True, i')"
        by (subst (asm) mergeNext_loop.simps) simp
      from "1.IH" [OF Cons _ _ _ _ this] True len show ?thesis by simp
    next
      case False
      with Cons "1.prems" len show ?thesis
        by (subst (asm) mergeNext_loop.simps) (auto split: if_splits)
    qed
  qed
qed

lemma mergeNext_length:
  "mergeNext i = (True, i') \<Longrightarrow> length (iter i') < length (iter i)"
  by (cases "iter i") (auto simp: mergeNext_def dest!: mergeNext_loop_length)

lemma Next_loop_mu:
  "Next_loop i = (True, i') \<Longrightarrow> mu i' < 2 * length (iter i) + 1"
proof (induction i rule: Next_loop.induct)
  case (1 i)
  show ?case
  proof (cases "iter i")
    case Nil
    with "1.prems" show ?thesis by (subst (asm) Next_loop.simps) simp
  next
    case (Cons e rest)
    show ?thesis
    proof (cases "Kind (fst e) = InternalKeyKindDelete \<and> elideTombstone i (UserKey (fst e))")
      case True
      with Cons "1.prems" have
        "Next_loop (i\<lparr>key := fst e, iter := iter_NextUserKey (cmp i) (iter i)\<rparr>) = (True, i')"
        by (subst (asm) Next_loop.simps) simp
      from "1.IH" [OF Cons _ _ this] True length_iter_NextUserKey [of "cmp i" e rest] Cons
      show ?thesis by simp
    next
      case False
      with Cons "1.prems" show ?thesis
        by (subst (asm) Next_loop.simps)
           (auto simp: mu_def split: if_splits dest!: mergeNext_length)
    qed
  qed
qed

lemma Next_mu: "fst (Next i) \<Longrightarrow> mu (snd (Next i)) < mu i"
proof -
  assume a: "fst (Next i)"
  then have e: "err i = None" by (auto simp: Next_def split: if_splits)
  show ?thesis
  proof (cases "skip i")
    case False
    with e a Next_loop_mu [of "i\<lparr>valid := False\<rparr>" "snd (Next i)"] show ?thesis
      by (simp add: Next_def mu_def prod_eq_iff)
  next
    case True
    show ?thesis
    proof (cases "iter i")
      case Nil
      with True e a show ?thesis
        by (simp add: Next_def iter_NextUserKey_def Next_loop.simps [of "i\<lparr>skip := False, iter := [], valid := False\<rparr>"])
    next
      case (Cons x rest)
      with True e a Next_loop_mu [of "i\<lparr>skip := False, iter := iter_NextUserKey (cmp i) (iter i), valid := False\<rparr>" "snd (Next i)"]
        length_iter_NextUserKey [of "cmp i" x rest]
      show ?thesis
        by (simp add: Next_def mu_def prod_eq_iff)
    qed
  qed
qed

function outputs :: "compactionIter \<Rightarrow> entry list" where
  "outputs i =
     (if fst (Next i) then (key (snd (Next i)), value (snd (Next i))) # outputs (snd (Next i))
      else [])"
  by pat_completeness auto
termination
  by (relation "measure mu") (auto simp: Next_mu)

declare outputs.simps [simp del]

function final :: "compactionIter \<Rightarrow> compactionIter" where
  "final i = (if fst (Next i) then final (snd (Next i)) else snd (Next i))"
  by pat_completeness auto
termination
  by (relation "measure mu") (auto simp: Next_mu)

declare final.simps [simp del]


text \<open>
  A whole compaction over the contents \<open>input\<close> of the wrapped iterator: \<open>First\<close>,
  then \<open>Next\<close> until it reports false. \<open>First\<close> returns nothing, so its outcome is
  read from \<open>Valid()\<close> and \<open>Error()\<close>. The result is the emitted records and the
  latched error, if any.
\<close>

definition compaction :: "compactionIter \<Rightarrow> entry list \<Rightarrow> entry list \<times> error option" where
  "compaction i input =
     (let i1 = First i input in
      if valid i1 \<and> err i1 = None then ((key i1, value i1) # outputs i1, err (final i1))
      else ([], err i1))"

text \<open>
  A fresh iterator as the examples of the documentation use it: bytewise comparison of
  user keys, concatenation as merge operator, and the given \<open>elideTombstone\<close>.
\<close>

definition concat_merge :: "bytes \<Rightarrow> bytes \<Rightarrow> bytes \<Rightarrow> bytes \<Rightarrow> bytes" where
  "concat_merge k existing new buf = existing @ new"

definition never_elide :: "bytes \<Rightarrow> bool" where
  "never_elide k = False"

definition always_elide :: "bytes \<Rightarrow> bool" where
  "always_elide k = True"

definition newCompactionIter :: "(bytes \<Rightarrow> bool) \<Rightarrow> compactionIter" where
  "newCompactionIter elide =
     \<lparr>cmp = bytes_Compare, merge = concat_merge, iter = [], err = None,
      key = \<lparr>UserKey = [], trailer = 0\<rparr>, value = [], valid = False, skip = False,
      elideTombstone = elide\<rparr>"


text \<open>
  Two inputs from the documentation of \<open>compactionIter\<close>, for user key \<open>a\<close> (byte 97):
  \<open>a.PUT.9 a.DEL.8 a.PUT.7 a.DEL.6 a.PUT.5\<close> with values X, Y and Z, and
  \<open>a.MERGE.4 a.MERGE.3 a.SET.2 a.MERGE.1\<close> with values d, c, b and a.
\<close>

definition example_E5 :: "entry list" where
  "example_E5 =
     [(MakeInternalKey [97] 9 InternalKeyKindSet, [88]),
      (MakeInternalKey [97] 8 InternalKeyKindDelete, []),
      (MakeInternalKey [97] 7 InternalKeyKindSet, [89]),
      (MakeInternalKey [97] 6 InternalKeyKindDelete, []),
      (MakeInternalKey [97] 5 InternalKeyKindSet, [90])]"

definition example_E4 :: "entry list" where
  "example_E4 =
     [(MakeInternalKey [97] 4 InternalKeyKindMerge, [100]),
      (MakeInternalKey [97] 3 InternalKeyKindMerge, [99]),
      (MakeInternalKey [97] 2 InternalKeyKindSet, [98]),
      (MakeInternalKey [97] 1 InternalKeyKindMerge, [97])]"

text \<open>
  Vocabulary for stating that the iterator never looks at sequence numbers:
  \<open>mapSeqNum h\<close> replaces the sequence number \<open>s\<close> of a key by \<open>h s\<close> and keeps
  user key and kind; \<open>retag h\<close> does so for the saved key and the pending input of an
  iterator; \<open>set_batch_bit\<close> sets bit 55, \<open>InternalKeySeqNumBatch\<close>.
\<close>

definition mapSeqNum :: "(64 word \<Rightarrow> 64 word) \<Rightarrow> InternalKey \<Rightarrow> InternalKey" where
  "mapSeqNum h k = MakeInternalKey (UserKey k) (h (SeqNum k)) (Kind k)"

definition mapSeqNum_entry :: "(64 word \<Rightarrow> 64 word) \<Rightarrow> entry \<Rightarrow> entry" where
  "mapSeqNum_entry h e = (mapSeqNum h (fst e), snd e)"

definition set_batch_bit :: "64 word \<Rightarrow> 64 word" where
  "set_batch_bit s = s OR InternalKeySeqNumBatch"

definition retag :: "(64 word \<Rightarrow> 64 word) \<Rightarrow> compactionIter \<Rightarrow> compactionIter" where
  "retag h i = i\<lparr>key := mapSeqNum h (key i), iter := map (mapSeqNum_entry h) (iter i)\<rparr>"

section \<open>Metrics (package pebble, metrics.go)\<close>

text \<open>
  \<open>LevelMetrics\<close>: \<open>int32\<close>, \<open>int64\<close> and \<open>uint64\<close> fields are words of that width
  (Go's \<open>+=\<close> wraps on both). \<open>Score\<close> is a \<open>float64\<close>; no function below computes
  with it, so it is carried as its 64-bit pattern, the zero value being \<open>0\<close>. The field
  \<open>Size\<close> is written \<open>Size'\<close> here, \<open>Size\<close> being the method of \<open>InternalKey\<close>.
\<close>

record Additional =
  ValueBlocksSize :: "64 word"
  BytesWrittenDataBlocks :: "64 word"
  BytesWrittenValueBlocks :: "64 word"

record LevelMetrics =
  Sublevels :: "32 word"
  NumFiles :: "64 word"
  Size' :: "64 word"
  Score :: "64 word"
  BytesIn :: "64 word"
  BytesIngested :: "64 word"
  BytesMoved :: "64 word"
  BytesRead :: "64 word"
  BytesCompacted :: "64 word"
  BytesFlushed :: "64 word"
  TablesCompacted :: "64 word"
  TablesFlushed :: "64 word"
  TablesIngested :: "64 word"
  TablesMoved :: "64 word"
  Additional :: Additional

definition Add :: "LevelMetrics \<Rightarrow> LevelMetrics \<Rightarrow> LevelMetrics" where
  "Add m u =
     m\<lparr>NumFiles := NumFiles m + NumFiles u,
       Size' := Size' m + Size' u,
       BytesIn := BytesIn m + BytesIn u,
       BytesIngested := BytesIngested m + BytesIngested u,
       BytesMoved := BytesMoved m + BytesMoved u,
       BytesRead := BytesRead m + BytesRead u,
       BytesCompacted := BytesCompacted m + BytesCompacted u,
       BytesFlushed := BytesFlushed m + BytesFlushed u,
       TablesCompacted := TablesCompacted m + TablesCompacted u,
       TablesFlushed := TablesFlushed m + TablesFlushed u,
       TablesIngested := TablesIngested m + TablesIngested u,
       TablesMoved := TablesMoved m + TablesMoved u,
       Additional := (Additional m)
         \<lparr>BytesWrittenDataBlocks :=
            BytesWrittenDataBlocks (Additional m) + BytesWrittenDataBlocks (Additional u),
          BytesWrittenValueBlocks :=
            BytesWrittenValueBlocks (Additional m) + BytesWrittenValueBlocks (Additional u),
          ValueBlocksSize := ValueBlocksSize (Additional m) + ValueBlocksSize (Additional u)\<rparr>\<rparr>"

text \<open>
  Of \<open>Metrics\<close>, \<open>Total\<close> reads the array \<open>Levels\<close> and \<open>WAL.BytesWritten\<close> only.
  \<open>Levels\<close> has type \<open>[numLevels]LevelMetrics\<close>; the constant \<open>numLevels\<close> is not
  declared in the sources at hand, so the array is a list and \<open>numLevels\<close> its length.
\<close>

record Metrics =
  Levels :: "LevelMetrics list"
  WAL_BytesWritten :: "64 word"

definition zero_LevelMetrics :: LevelMetrics where
  "zero_LevelMetrics =
     \<lparr>Sublevels = 0, NumFiles = 0, Size' = 0, Score = 0, BytesIn = 0, BytesIngested = 0,
      BytesMoved = 0, BytesRead = 0, BytesCompacted = 0, BytesFlushed = 0,
      TablesCompacted = 0, TablesFlushed = 0, TablesIngested = 0, TablesMoved = 0,
      Additional = \<lparr>ValueBlocksSize = 0, BytesWrittenDataBlocks = 0,
                     BytesWrittenValueBlocks = 0\<rparr>\<rparr>"

text \<open>
  The body of the loop of \<open>Total\<close>, for one level \<open>l\<close>; \<open>tot\<close> is the source's
  variable \<open>total\<close>.
\<close>

definition Total_step :: "LevelMetrics \<Rightarrow> LevelMetrics \<Rightarrow> LevelMetrics" where
  "Total_step tot l = (Add tot l)\<lparr>Sublevels := Sublevels (Add tot l) + Sublevels l\<rparr>"

definition Total :: "Metrics \<Rightarrow> LevelMetrics" where
  "Total m =
     (let tot = foldl Total_step zero_LevelMetrics (Levels m);
          tot = tot\<lparr>BytesIn := WAL_BytesWritten m + BytesIngested tot\<rparr>
      in tot\<lparr>BytesFlushed := BytesFlushed tot + BytesIn tot\<rparr>)"

definition ReadAmp :: "Metrics \<Rightarrow> 32 word" where
  "ReadAmp m = foldl (\<lambda>ramp l. ramp + Sublevels l) 0 (Levels m)"



section \<open>Properties of internal keys\<close>

lemma ff_mask: "(0xff :: 64 word) = mask 8"
  by (simp add: mask_eq_exp_minus_1)

lemma Kind_MakeInternalKey: "Kind (MakeInternalKey u s k) = k"
  unfolding Kind_def MakeInternalKey_def
  apply (simp add: ff_mask)
  apply (rule bit_word_eqI)
  apply (auto simp: bit_simps dest: bit_imp_le_length)
  done

lemma SeqNum_MakeInternalKey: "SeqNum (MakeInternalKey u s k) = s AND mask 56"
  unfolding SeqNum_def MakeInternalKey_def
  apply simp
  apply (rule bit_word_eqI)
  apply (auto simp: bit_simps dest: bit_imp_le_length)
  done

lemma unat_SeqNum_MakeInternalKey:
  "unat (SeqNum (MakeInternalKey u s k)) = unat s mod 2 ^ 56"
proof -
  have "s AND mask 56 = take_bit 56 s"
    by (simp add: take_bit_eq_mask)
  moreover have "unat (take_bit 56 s) = take_bit 56 (unat s)"
    by (rule unsigned_take_bit_eq)
  ultimately show ?thesis
    by (simp only: SeqNum_MakeInternalKey take_bit_eq_mod)
qed

lemma Uint64_PutUint64: "Uint64 (PutUint64 v) = v"
proof (rule bit_word_eqI)
  fix n :: nat
  assume "n < LENGTH(64)"
  then consider "n < 8" | "8 \<le> n" "n < 16" | "16 \<le> n" "n < 24" | "24 \<le> n" "n < 32"
    | "32 \<le> n" "n < 40" | "40 \<le> n" "n < 48" | "48 \<le> n" "n < 56" | "56 \<le> n" "n < 64"
    by fastforce
  then show "bit (Uint64 (PutUint64 v)) n = bit v n"
    by cases (auto simp: Uint64_def PutUint64_def bit_simps)
qed

lemma length_PutUint64: "length (PutUint64 v) = 8"
  by (simp add: PutUint64_def)

lemma Encode_exact:
  "length buf = Size k \<Longrightarrow> Encode k buf = Some (UserKey k @ PutUint64 (trailer k))"
  by (simp add: Encode_def Size_def Let_def length_PutUint64)

lemma DecodeInternalKey_encoded: "DecodeInternalKey (UserKey k @ PutUint64 (trailer k)) = k"
  by (simp add: DecodeInternalKey_def Let_def length_PutUint64 Uint64_PutUint64)

text \<open>
  C8. For every user key, 64-bit sequence number \<open>s\<close> and kind \<open>k\<close>, the key built by
  \<open>MakeInternalKey\<close> has \<open>Kind() = k\<close> and \<open>SeqNum() = s mod 2^56\<close>: the shift by 8
  drops the top eight bits of \<open>s\<close>, and no input is rejected.
\<close>

theorem MakeInternalKey_Kind_SeqNum:
  "Kind (MakeInternalKey u s k) = k \<and>
   SeqNum (MakeInternalKey u s k) = s AND mask 56 \<and>
   unat (SeqNum (MakeInternalKey u s k)) = unat s mod 2 ^ 56"
  by (intro conjI Kind_MakeInternalKey SeqNum_MakeInternalKey unat_SeqNum_MakeInternalKey)

text \<open>
  C6. Round trip: \<open>Encode\<close> into a buffer of \<open>Size()\<close> bytes succeeds and writes the
  user key followed by the little-endian trailer, and \<open>DecodeInternalKey\<close> of that
  buffer is the key again, with the same user key, sequence number and kind. Every
  \<open>InternalKey\<close> has a sequence number below \<open>2^56\<close>, \<open>SeqNum\<close> being the trailer
  shifted right by 8.
\<close>

theorem DecodeInternalKey_Encode:
  assumes "length buf = Size k"
  shows "Encode k buf = Some (UserKey k @ PutUint64 (trailer k)) \<and>
         DecodeInternalKey (UserKey k @ PutUint64 (trailer k)) = k \<and>
         UserKey (DecodeInternalKey (UserKey k @ PutUint64 (trailer k))) = UserKey k \<and>
         SeqNum (DecodeInternalKey (UserKey k @ PutUint64 (trailer k))) = SeqNum k \<and>
         Kind (DecodeInternalKey (UserKey k @ PutUint64 (trailer k))) = Kind k"
  using assms by (simp add: Encode_exact DecodeInternalKey_encoded)

theorem DecodeInternalKey_Encode_witness:
  "length [0, 0, 0, 0, 0, 0, 0, 0, 0 :: 8 word] = Size (MakeInternalKey [97] 4 InternalKeyKindSet) \<and>
   Encode (MakeInternalKey [97] 4 InternalKeyKindSet) [0, 0, 0, 0, 0, 0, 0, 0, 0]
     = Some [97, 1, 4, 0, 0, 0, 0, 0, 0] \<and>
   DecodeInternalKey [97, 1, 4, 0, 0, 0, 0, 0, 0] = MakeInternalKey [97] 4 InternalKeyKindSet"
proof -
  have h: "length [0, 0, 0, 0, 0, 0, 0, 0, 0 :: 8 word]
             = Size (MakeInternalKey [97] 4 InternalKeyKindSet)"
    by (simp add: Size_def MakeInternalKey_def)
  have p: "PutUint64 (trailer (MakeInternalKey [97] 4 InternalKeyKindSet))
             = [1, 4, 0, 0, 0, 0, 0, 0]"
    by (simp add: MakeInternalKey_def PutUint64_def)
  have u: "UserKey (MakeInternalKey [97] 4 InternalKeyKindSet) = [97]"
    by (simp add: MakeInternalKey_def)
  from DecodeInternalKey_Encode [OF h] show ?thesis
    unfolding p u using h by simp
qed

text \<open>
  C5, as the code has it. When both keys are invalid, \<open>InternalCompare\<close> does not call
  the caller's comparer: it returns \<open>bytes.Compare\<close> of the two user keys, whatever
  \<open>userCmp\<close> is.
\<close>

theorem InternalCompare_both_invalid:
  assumes "\<not> Valid a" and "\<not> Valid b"
  shows "InternalCompare userCmp a b = bytes_Compare (UserKey a) (UserKey b)"
  using assms by (simp add: InternalCompare_def)

theorem InternalCompare_both_invalid_witness:
  "\<not> Valid (MakeInternalKey [1] 0 InternalKeyKindInvalid) \<and>
   \<not> Valid (MakeInternalKey [2] 0 InternalKeyKindInvalid) \<and>
   InternalCompare reverse_Compare (MakeInternalKey [1] 0 InternalKeyKindInvalid)
     (MakeInternalKey [2] 0 InternalKeyKindInvalid) = bytes_Compare [1] [2]"
  using InternalCompare_both_invalid [of "MakeInternalKey [1] 0 InternalKeyKindInvalid"
      "MakeInternalKey [2] 0 InternalKeyKindInvalid" reverse_Compare]
  by (simp add: Valid_def Kind_MakeInternalKey) (simp add: MakeInternalKey_def)

text \<open>
  C5 as stated fails: with the reverse bytewise order as the caller's comparer and the
  invalid keys of user keys \<open>[1]\<close> and \<open>[2]\<close>, the comparer answers 1 and
  \<open>InternalCompare\<close> answers -1.
\<close>

theorem InternalCompare_userCmp_counterexample:
  "\<not> Valid (MakeInternalKey [1] 0 InternalKeyKindInvalid) \<and>
   \<not> Valid (MakeInternalKey [2] 0 InternalKeyKindInvalid) \<and>
   reverse_Compare (UserKey (MakeInternalKey [1] 0 InternalKeyKindInvalid))
     (UserKey (MakeInternalKey [2] 0 InternalKeyKindInvalid)) = 1 \<and>
   InternalCompare reverse_Compare (MakeInternalKey [1] 0 InternalKeyKindInvalid)
     (MakeInternalKey [2] 0 InternalKeyKindInvalid) = -1"
  by (simp add: InternalCompare_def Valid_def Kind_MakeInternalKey reverse_Compare_def)
     (simp add: MakeInternalKey_def)


section \<open>Properties of the metrics\<close>

lemma foldl_Total_step:
  "foldl Total_step t ls =
     \<lparr>Sublevels = Sublevels t + sum_list (map Sublevels ls),
      NumFiles = NumFiles t + sum_list (map NumFiles ls),
      Size' = Size' t + sum_list (map Size' ls),
      Score = Score t,
      BytesIn = BytesIn t + sum_list (map BytesIn ls),
      BytesIngested = BytesIngested t + sum_list (map BytesIngested ls),
      BytesMoved = BytesMoved t + sum_list (map BytesMoved ls),
      BytesRead = BytesRead t + sum_list (map BytesRead ls),
      BytesCompacted = BytesCompacted t + sum_list (map BytesCompacted ls),
      BytesFlushed = BytesFlushed t + sum_list (map BytesFlushed ls),
      TablesCompacted = TablesCompacted t + sum_list (map TablesCompacted ls),
      TablesFlushed = TablesFlushed t + sum_list (map TablesFlushed ls),
      TablesIngested = TablesIngested t + sum_list (map TablesIngested ls),
      TablesMoved = TablesMoved t + sum_list (map TablesMoved ls),
      Additional =
        \<lparr>ValueBlocksSize = ValueBlocksSize (Additional t)
           + sum_list (map (\<lambda>l. ValueBlocksSize (Additional l)) ls),
         BytesWrittenDataBlocks = BytesWrittenDataBlocks (Additional t)
           + sum_list (map (\<lambda>l. BytesWrittenDataBlocks (Additional l)) ls),
         BytesWrittenValueBlocks = BytesWrittenValueBlocks (Additional t)
           + sum_list (map (\<lambda>l. BytesWrittenValueBlocks (Additional l)) ls)\<rparr>\<rparr>"
proof (induction ls arbitrary: t)
  case Nil
  show ?case by simp
next
  case (Cons l ls)
  have step: "foldl Total_step t (l # ls) = foldl Total_step (Total_step t l) ls"
    by simp
  show ?case
    unfolding step Cons.IH [of "Total_step t l"]
    by (simp add: Total_step_def Add_def add.assoc)
qed

lemma Total_sums:
  "Total m =
     \<lparr>Sublevels = sum_list (map Sublevels (Levels m)),
      NumFiles = sum_list (map NumFiles (Levels m)),
      Size' = sum_list (map Size' (Levels m)),
      Score = 0,
      BytesIn = WAL_BytesWritten m + sum_list (map BytesIngested (Levels m)),
      BytesIngested = sum_list (map BytesIngested (Levels m)),
      BytesMoved = sum_list (map BytesMoved (Levels m)),
      BytesRead = sum_list (map BytesRead (Levels m)),
      BytesCompacted = sum_list (map BytesCompacted (Levels m)),
      BytesFlushed = sum_list (map BytesFlushed (Levels m))
        + (WAL_BytesWritten m + sum_list (map BytesIngested (Levels m))),
      TablesCompacted = sum_list (map TablesCompacted (Levels m)),
      TablesFlushed = sum_list (map TablesFlushed (Levels m)),
      TablesIngested = sum_list (map TablesIngested (Levels m)),
      TablesMoved = sum_list (map TablesMoved (Levels m)),
      Additional =
        \<lparr>ValueBlocksSize = sum_list (map (\<lambda>l. ValueBlocksSize (Additional l)) (Levels m)),
         BytesWrittenDataBlocks =
           sum_list (map (\<lambda>l. BytesWrittenDataBlocks (Additional l)) (Levels m)),
         BytesWrittenValueBlocks =
           sum_list (map (\<lambda>l. BytesWrittenValueBlocks (Additional l)) (Levels m))\<rparr>\<rparr>"
  by (simp add: Total_def Let_def foldl_Total_step zero_LevelMetrics_def)

text \<open>
  C10. \<open>m.Add(u)\<close> leaves \<open>Sublevels\<close> and \<open>Score\<close> of \<open>m\<close> as they were and adds
  every counter of \<open>u\<close> to the counter of \<open>m\<close>, field by field (modulo \<open>2^64\<close>, as
  Go's integers do).
\<close>

theorem Add_frame:
  "Sublevels (Add m u) = Sublevels m \<and> Score (Add m u) = Score m \<and>
   NumFiles (Add m u) = NumFiles m + NumFiles u \<and>
   Size' (Add m u) = Size' m + Size' u \<and>
   BytesIn (Add m u) = BytesIn m + BytesIn u \<and>
   BytesIngested (Add m u) = BytesIngested m + BytesIngested u \<and>
   BytesMoved (Add m u) = BytesMoved m + BytesMoved u \<and>
   BytesRead (Add m u) = BytesRead m + BytesRead u \<and>
   BytesCompacted (Add m u) = BytesCompacted m + BytesCompacted u \<and>
   BytesFlushed (Add m u) = BytesFlushed m + BytesFlushed u \<and>
   TablesCompacted (Add m u) = TablesCompacted m + TablesCompacted u \<and>
   TablesFlushed (Add m u) = TablesFlushed m + TablesFlushed u \<and>
   TablesIngested (Add m u) = TablesIngested m + TablesIngested u \<and>
   TablesMoved (Add m u) = TablesMoved m + TablesMoved u \<and>
   ValueBlocksSize (Additional (Add m u))
     = ValueBlocksSize (Additional m) + ValueBlocksSize (Additional u) \<and>
   BytesWrittenDataBlocks (Additional (Add m u))
     = BytesWrittenDataBlocks (Additional m) + BytesWrittenDataBlocks (Additional u) \<and>
   BytesWrittenValueBlocks (Additional (Add m u))
     = BytesWrittenValueBlocks (Additional m) + BytesWrittenValueBlocks (Additional u)"
  by (simp add: Add_def)

text \<open>
  C7. \<open>Total()\<close> is the field-wise sum of the per-level counters (and of \<open>Sublevels\<close>;
  \<open>Score\<close>, which \<open>Add\<close> does not touch, stays at its zero value), except that
  \<open>BytesIn\<close> is \<open>WAL.BytesWritten\<close> plus the summed \<open>BytesIngested\<close>, and
  \<open>BytesFlushed\<close> is the summed \<open>BytesFlushed\<close> plus that \<open>BytesIn\<close>. With
  \<open>WAL.BytesWritten = 100\<close>, ingested bytes summing to 40 and flushed bytes summing to
  50, \<open>BytesIn\<close> is 140 and \<open>BytesFlushed\<close> is 190.
\<close>

theorem Total_BytesIn_BytesFlushed:
  "NumFiles (Total m) = sum_list (map NumFiles (Levels m)) \<and>
   Size' (Total m) = sum_list (map Size' (Levels m)) \<and>
   BytesIngested (Total m) = sum_list (map BytesIngested (Levels m)) \<and>
   BytesMoved (Total m) = sum_list (map BytesMoved (Levels m)) \<and>
   BytesRead (Total m) = sum_list (map BytesRead (Levels m)) \<and>
   BytesCompacted (Total m) = sum_list (map BytesCompacted (Levels m)) \<and>
   TablesCompacted (Total m) = sum_list (map TablesCompacted (Levels m)) \<and>
   TablesFlushed (Total m) = sum_list (map TablesFlushed (Levels m)) \<and>
   TablesIngested (Total m) = sum_list (map TablesIngested (Levels m)) \<and>
   TablesMoved (Total m) = sum_list (map TablesMoved (Levels m)) \<and>
   ValueBlocksSize (Additional (Total m))
     = sum_list (map (\<lambda>l. ValueBlocksSize (Additional l)) (Levels m)) \<and>
   BytesWrittenDataBlocks (Additional (Total m))
     = sum_list (map (\<lambda>l. BytesWrittenDataBlocks (Additional l)) (Levels m)) \<and>
   BytesWrittenValueBlocks (Additional (Total m))
     = sum_list (map (\<lambda>l. BytesWrittenValueBlocks (Additional l)) (Levels m)) \<and>
   Sublevels (Total m) = sum_list (map Sublevels (Levels m)) \<and>
   Score (Total m) = 0 \<and>
   BytesIn (Total m) = WAL_BytesWritten m + sum_list (map BytesIngested (Levels m)) \<and>
   BytesFlushed (Total m) = sum_list (map BytesFlushed (Levels m)) + BytesIn (Total m) \<and>
   (WAL_BytesWritten m = 100 \<longrightarrow> sum_list (map BytesIngested (Levels m)) = 40 \<longrightarrow>
    sum_list (map BytesFlushed (Levels m)) = 50 \<longrightarrow>
    BytesIn (Total m) = 140 \<and> BytesFlushed (Total m) = 190)"
  by (simp add: Total_sums)

theorem Total_BytesIn_BytesFlushed_witness:
  "WAL_BytesWritten
     \<lparr>Levels = [zero_LevelMetrics\<lparr>BytesIngested := 30, BytesFlushed := 50\<rparr>,
                zero_LevelMetrics\<lparr>BytesIngested := 10\<rparr>],
      WAL_BytesWritten = 100\<rparr> = 100 \<and>
   sum_list (map BytesIngested
     [zero_LevelMetrics\<lparr>BytesIngested := 30, BytesFlushed := 50\<rparr>,
      zero_LevelMetrics\<lparr>BytesIngested := 10\<rparr>]) = 40 \<and>
   sum_list (map BytesFlushed
     [zero_LevelMetrics\<lparr>BytesIngested := 30, BytesFlushed := 50\<rparr>,
      zero_LevelMetrics\<lparr>BytesIngested := 10\<rparr>]) = 50 \<and>
   BytesIn (Total
     \<lparr>Levels = [zero_LevelMetrics\<lparr>BytesIngested := 30, BytesFlushed := 50\<rparr>,
                zero_LevelMetrics\<lparr>BytesIngested := 10\<rparr>],
      WAL_BytesWritten = 100\<rparr>) = 140 \<and>
   BytesFlushed (Total
     \<lparr>Levels = [zero_LevelMetrics\<lparr>BytesIngested := 30, BytesFlushed := 50\<rparr>,
                zero_LevelMetrics\<lparr>BytesIngested := 10\<rparr>],
      WAL_BytesWritten = 100\<rparr>) = 190"
  using Total_BytesIn_BytesFlushed
    [of "\<lparr>Levels = [zero_LevelMetrics\<lparr>BytesIngested := 30, BytesFlushed := 50\<rparr>,
                    zero_LevelMetrics\<lparr>BytesIngested := 10\<rparr>],
          WAL_BytesWritten = 100\<rparr>"]
  by (simp add: zero_LevelMetrics_def)


section \<open>Properties of the compaction iterator\<close>

subsection \<open>The branches of the two loops\<close>

lemma Next_loop_Nil: "iter i = [] \<Longrightarrow> Next_loop i = (False, i)"
  by (subst Next_loop.simps) simp

lemma Next_loop_Delete_elide:
  "iter i = e # rest \<Longrightarrow> Kind (fst e) = InternalKeyKindDelete \<Longrightarrow>
   elideTombstone i (UserKey (fst e)) \<Longrightarrow>
   Next_loop i = Next_loop (i\<lparr>key := fst e, iter := iter_NextUserKey (cmp i) (iter i)\<rparr>)"
  by (subst Next_loop.simps) simp

lemma Next_loop_Delete_emit:
  "iter i = e # rest \<Longrightarrow> Kind (fst e) = InternalKeyKindDelete \<Longrightarrow>
   \<not> elideTombstone i (UserKey (fst e)) \<Longrightarrow>
   Next_loop i = (True, i\<lparr>key := fst e, value := snd e, valid := True, skip := True\<rparr>)"
  by (subst Next_loop.simps) simp

lemma Next_loop_Set:
  "iter i = e # rest \<Longrightarrow> Kind (fst e) = InternalKeyKindSet \<Longrightarrow>
   Next_loop i = (True, i\<lparr>key := fst e, value := snd e, valid := True, skip := True\<rparr>)"
  by (subst Next_loop.simps) simp

lemma Next_loop_Merge:
  "iter i = e # rest \<Longrightarrow> Kind (fst e) = InternalKeyKindMerge \<Longrightarrow>
   Next_loop i = mergeNext_loop (i\<lparr>key := fst e, value := snd e, valid := True, skip := True\<rparr>)"
  by (subst Next_loop.simps) (simp add: mergeNext_def)

lemma Next_loop_other:
  "iter i = e # rest \<Longrightarrow> Kind (fst e) \<noteq> InternalKeyKindDelete \<Longrightarrow>
   Kind (fst e) \<noteq> InternalKeyKindSet \<Longrightarrow> Kind (fst e) \<noteq> InternalKeyKindMerge \<Longrightarrow>
   Next_loop i = (False, i\<lparr>key := fst e, err := Some (InvalidInternalKeyKind (Kind (fst e)))\<rparr>)"
  by (subst Next_loop.simps) simp

lemma mergeNext_loop_end:
  "iter_Next (iter i) = [] \<Longrightarrow> mergeNext_loop i = (True, i\<lparr>iter := [], skip := False\<rparr>)"
  by (subst mergeNext_loop.simps) simp

lemma mergeNext_loop_other_key:
  "iter_Next (iter i) = e # rest \<Longrightarrow> cmp i (UserKey (key i)) (UserKey (fst e)) \<noteq> 0 \<Longrightarrow>
   mergeNext_loop i = (True, i\<lparr>iter := e # rest, skip := False\<rparr>)"
  by (subst mergeNext_loop.simps) simp

lemma mergeNext_loop_Delete:
  "iter_Next (iter i) = e # rest \<Longrightarrow> cmp i (UserKey (key i)) (UserKey (fst e)) = 0 \<Longrightarrow>
   Kind (fst e) = InternalKeyKindDelete \<Longrightarrow>
   mergeNext_loop i = (True, i\<lparr>iter := e # rest\<rparr>)"
  by (subst mergeNext_loop.simps) simp

lemma mergeNext_loop_Set:
  "iter_Next (iter i) = e # rest \<Longrightarrow> cmp i (UserKey (key i)) (UserKey (fst e)) = 0 \<Longrightarrow>
   Kind (fst e) = InternalKeyKindSet \<Longrightarrow>
   mergeNext_loop i =
     (True, i\<lparr>iter := e # rest, value := merge i (UserKey (key i)) (value i) (snd e) [],
              key := SetKind (key i) InternalKeyKindSet\<rparr>)"
  by (subst mergeNext_loop.simps) simp

lemma mergeNext_loop_Merge:
  "iter_Next (iter i) = e # rest \<Longrightarrow> cmp i (UserKey (key i)) (UserKey (fst e)) = 0 \<Longrightarrow>
   Kind (fst e) = InternalKeyKindMerge \<Longrightarrow>
   mergeNext_loop i =
     mergeNext_loop (i\<lparr>iter := e # rest,
                        value := merge i (UserKey (key i)) (value i) (snd e) []\<rparr>)"
  by (subst mergeNext_loop.simps) simp

lemma mergeNext_loop_other:
  "iter_Next (iter i) = e # rest \<Longrightarrow> cmp i (UserKey (key i)) (UserKey (fst e)) = 0 \<Longrightarrow>
   Kind (fst e) \<noteq> InternalKeyKindDelete \<Longrightarrow>
   Kind (fst e) \<noteq> InternalKeyKindSet \<Longrightarrow> Kind (fst e) \<noteq> InternalKeyKindMerge \<Longrightarrow>
   mergeNext_loop i =
     (False, i\<lparr>iter := e # rest, err := Some (InvalidInternalKeyKind (Kind (key i)))\<rparr>)"
  by (subst mergeNext_loop.simps) simp

lemmas Next_loop_cases = Next_loop_Nil Next_loop_Delete_elide Next_loop_Delete_emit
  Next_loop_Set Next_loop_Merge Next_loop_other

lemmas mergeNext_loop_cases = mergeNext_loop_end mergeNext_loop_other_key
  mergeNext_loop_Delete mergeNext_loop_Set mergeNext_loop_Merge mergeNext_loop_other

text \<open>The key and value held before a call do not influence its outcome.\<close>

lemma Next_loop_key_value:
  "fst (Next_loop (i\<lparr>key := ka, value := va\<rparr>)) = fst (Next_loop i) \<and>
   (fst (Next_loop i) \<longrightarrow> snd (Next_loop (i\<lparr>key := ka, value := va\<rparr>)) = snd (Next_loop i)) \<and>
   err (snd (Next_loop (i\<lparr>key := ka, value := va\<rparr>))) = err (snd (Next_loop i))"
proof (induction i arbitrary: ka va rule: Next_loop.induct)
  case (1 i)
  show ?case
  proof (cases "iter i")
    case Nil
    then show ?thesis by (simp add: Next_loop_Nil)
  next
    case (Cons e rest)
    consider (del_elide) "Kind (fst e) = InternalKeyKindDelete" "elideTombstone i (UserKey (fst e))"
      | (del_emit) "Kind (fst e) = InternalKeyKindDelete" "\<not> elideTombstone i (UserKey (fst e))"
      | (set) "Kind (fst e) = InternalKeyKindSet"
      | (merge) "Kind (fst e) = InternalKeyKindMerge"
      | (other) "Kind (fst e) \<noteq> InternalKeyKindDelete" "Kind (fst e) \<noteq> InternalKeyKindSet"
          "Kind (fst e) \<noteq> InternalKeyKindMerge"
      by blast
    then show ?thesis
    proof cases
      case del_elide
      have l: "Next_loop (i\<lparr>key := ka, value := va\<rparr>)
                 = Next_loop (i\<lparr>key := fst e, iter := iter_NextUserKey (cmp i) (iter i),
                                key := fst e, value := va\<rparr>)"
        apply (subst Next_loop_Delete_elide [of _ e rest])
        apply (simp_all add: Cons del_elide)
        apply (rule arg_cong [where f = Next_loop])
        apply simp
        done
      have r: "Next_loop i
                 = Next_loop (i\<lparr>key := fst e, iter := iter_NextUserKey (cmp i) (iter i)\<rparr>)"
        using Cons del_elide by (rule Next_loop_Delete_elide)
      from "1.IH" [OF Cons del_elide, where ka = "fst e" and va = va] Cons
      show ?thesis unfolding l r by blast
    next
      case del_emit
      with Cons show ?thesis
        by (simp add: Next_loop_Delete_emit [of _ e rest])
    next
      case set
      with Cons show ?thesis
        by (simp add: Next_loop_Set [of _ e rest])
    next
      case merge
      with Cons show ?thesis
        by (simp add: Next_loop_Merge [of _ e rest])
    next
      case other
      with Cons show ?thesis
        by (simp add: Next_loop_other [of _ e rest])
    qed
  qed
qed

subsection \<open>What later calls depend on\<close>

lemma Next_key_value:
  "fst (Next (i\<lparr>key := ka, value := va\<rparr>)) = fst (Next i) \<and>
   (fst (Next i) \<longrightarrow> snd (Next (i\<lparr>key := ka, value := va\<rparr>)) = snd (Next i)) \<and>
   err (snd (Next (i\<lparr>key := ka, value := va\<rparr>))) = err (snd (Next i))"
proof (cases "err i = None")
  case False
  then show ?thesis by (simp add: Next_def)
next
  case True
  define j where "j = (if skip i then i\<lparr>skip := False, iter := iter_NextUserKey (cmp i) (iter i)\<rparr>
                        else i)\<lparr>valid := False\<rparr>"
  have a: "Next i = Next_loop j"
    using True by (simp add: Next_def j_def)
  have b: "Next (i\<lparr>key := ka, value := va\<rparr>) = Next_loop (j\<lparr>key := ka, value := va\<rparr>)"
    apply (simp add: Next_def True)
    apply (intro conjI impI arg_cong [where f = Next_loop])
     apply (simp_all add: j_def)
    done
  show ?thesis unfolding a b by (rule Next_loop_key_value)
qed

lemma Next_valid: "err i = None \<Longrightarrow> Next (i\<lparr>valid := b\<rparr>) = Next i"
  by (simp add: Next_def)

lemma Next_skip:
  "err i = None \<Longrightarrow> skip i \<Longrightarrow>
   Next (i\<lparr>skip := False, iter := iter_NextUserKey (cmp i) (iter i)\<rparr>) = Next i"
  by (simp add: Next_def)

lemma outputs_key_value: "outputs (i\<lparr>key := ka, value := va\<rparr>) = outputs i"
  using Next_key_value [where i = i and ka = ka and va = va]
  by (subst outputs.simps, subst (2) outputs.simps) auto

lemma final_key_value: "err (final (i\<lparr>key := ka, value := va\<rparr>)) = err (final i)"
  using Next_key_value [where i = i and ka = ka and va = va]
  by (subst final.simps, subst (2) final.simps) auto

lemma outputs_valid: "err i = None \<Longrightarrow> outputs (i\<lparr>valid := b\<rparr>) = outputs i"
  by (subst outputs.simps, subst (2) outputs.simps) (simp add: Next_valid)

lemma final_valid: "err i = None \<Longrightarrow> final (i\<lparr>valid := b\<rparr>) = final i"
  by (subst final.simps, subst (2) final.simps) (simp add: Next_valid)

lemma outputs_skip:
  "err i = None \<Longrightarrow> skip i \<Longrightarrow>
   outputs i = outputs (i\<lparr>skip := False, iter := iter_NextUserKey (cmp i) (iter i)\<rparr>)"
  by (subst outputs.simps, subst (2) outputs.simps) (simp add: Next_skip)

lemma final_skip:
  "err i = None \<Longrightarrow> skip i \<Longrightarrow>
   final i = final (i\<lparr>skip := False, iter := iter_NextUserKey (cmp i) (iter i)\<rparr>)"
  by (subst final.simps, subst (2) final.simps) (simp add: Next_skip)

text \<open>The state after an emitted record: what the following calls produce.\<close>

lemma outputs_emitted:
  assumes "err i = None"
  shows "outputs (i\<lparr>key := ka, value := va, valid := True, skip := True\<rparr>)
           = outputs (i\<lparr>skip := False, iter := iter_NextUserKey (cmp i) (iter i)\<rparr>)"
proof -
  let ?j = "i\<lparr>skip := False, iter := iter_NextUserKey (cmp i) (iter i)\<rparr>"
  have "outputs (i\<lparr>key := ka, value := va, valid := True, skip := True\<rparr>)
          = outputs (i\<lparr>key := ka, value := va, valid := True, skip := True, skip := False,
                iter := iter_NextUserKey (cmp i) (iter i)\<rparr>)"
    using assms by (subst outputs_skip) simp_all
  also have "i\<lparr>key := ka, value := va, valid := True, skip := True, skip := False,
                iter := iter_NextUserKey (cmp i) (iter i)\<rparr>
             = ?j\<lparr>valid := True, key := ka, value := va\<rparr>"
    by simp
  also have "outputs (?j\<lparr>valid := True, key := ka, value := va\<rparr>) = outputs (?j\<lparr>valid := True\<rparr>)"
    by (rule outputs_key_value)
  also have "\<dots> = outputs ?j"
    using assms by (simp add: outputs_valid)
  finally show ?thesis .
qed

lemma final_emitted:
  assumes "err i = None"
  shows "err (final (i\<lparr>key := ka, value := va, valid := True, skip := True\<rparr>))
           = err (final (i\<lparr>skip := False, iter := iter_NextUserKey (cmp i) (iter i)\<rparr>))"
proof -
  let ?j = "i\<lparr>skip := False, iter := iter_NextUserKey (cmp i) (iter i)\<rparr>"
  have "final (i\<lparr>key := ka, value := va, valid := True, skip := True\<rparr>)
          = final (i\<lparr>key := ka, value := va, valid := True, skip := True, skip := False,
                iter := iter_NextUserKey (cmp i) (iter i)\<rparr>)"
    using assms by (subst final_skip) simp_all
  also have "i\<lparr>key := ka, value := va, valid := True, skip := True, skip := False,
                iter := iter_NextUserKey (cmp i) (iter i)\<rparr>
             = ?j\<lparr>valid := True, key := ka, value := va\<rparr>"
    by simp
  finally have "err (final (i\<lparr>key := ka, value := va, valid := True, skip := True\<rparr>))
                  = err (final (?j\<lparr>valid := True, key := ka, value := va\<rparr>))"
    by simp
  also have "\<dots> = err (final (?j\<lparr>valid := True\<rparr>))"
    by (rule final_key_value)
  also have "\<dots> = err (final ?j)"
    using assms by (simp add: final_valid)
  finally show ?thesis .
qed

lemma Next_reach:
  assumes "err i = None"
    and "(if skip i then iter_NextUserKey (cmp i) (iter i) else iter i) = it"
  shows "Next i = Next_loop (i\<lparr>skip := False, iter := it, valid := False\<rparr>)"
proof (cases "skip i")
  case True
  with assms show ?thesis by (simp add: Next_def)
next
  case False
  with assms have "Next i = Next_loop (i\<lparr>valid := False\<rparr>)"
    by (simp add: Next_def)
  also have "i\<lparr>valid := False\<rparr> = i\<lparr>skip := False, iter := it, valid := False\<rparr>"
    using assms False by simp
  finally show ?thesis .
qed

lemma Next_Delete_emit:
  assumes "err i = None"
    and "(if skip i then iter_NextUserKey (cmp i) (iter i) else iter i) = (k, v) # rest"
    and "Kind k = InternalKeyKindDelete \<and> \<not> elideTombstone i (UserKey k) \<or> Kind k = InternalKeyKindSet"
  shows "Next i = (True, i\<lparr>skip := False, iter := (k, v) # rest, valid := False,
                           key := k, value := v, valid := True, skip := True\<rparr>)"
  unfolding Next_reach [OF assms(1,2)] using assms(3)
  by (auto simp: Next_loop_Delete_emit [of _ "(k, v)" rest] Next_loop_Set [of _ "(k, v)" rest])

lemma outputs_Delete_emit:
  assumes "err i = None"
    and "(if skip i then iter_NextUserKey (cmp i) (iter i) else iter i) = (k, v) # rest"
    and "Kind k = InternalKeyKindDelete \<and> \<not> elideTombstone i (UserKey k) \<or> Kind k = InternalKeyKindSet"
  shows "outputs i = (k, v) # outputs (i\<lparr>skip := False, iter := iter_NextUserKey (cmp i) ((k, v) # rest)\<rparr>)"
    and "err (final i) = err (final (i\<lparr>skip := False, iter := iter_NextUserKey (cmp i) ((k, v) # rest)\<rparr>))"
proof -
  let ?j = "i\<lparr>skip := False, iter := (k, v) # rest, valid := False\<rparr>"
  let ?r = "i\<lparr>skip := False, iter := iter_NextUserKey (cmp i) ((k, v) # rest)\<rparr>"
  have n: "Next i = (True, ?j\<lparr>key := k, value := v, valid := True, skip := True\<rparr>)"
    using Next_Delete_emit [OF assms] by simp
  have e: "err ?j = None" using assms(1) by simp
  have j: "?j\<lparr>skip := False, iter := iter_NextUserKey (cmp ?j) (iter ?j)\<rparr> = ?r\<lparr>valid := False\<rparr>"
    by simp
  have er: "err ?r = None" using assms(1) by simp
  have "outputs i = (k, v) # outputs (?j\<lparr>key := k, value := v, valid := True, skip := True\<rparr>)"
    by (subst outputs.simps) (simp add: n)
  also have "outputs (?j\<lparr>key := k, value := v, valid := True, skip := True\<rparr>) = outputs (?r\<lparr>valid := False\<rparr>)"
    unfolding outputs_emitted [OF e] j ..
  also have "\<dots> = outputs ?r" by (rule outputs_valid [OF er])
  finally show "outputs i = (k, v) # outputs ?r" .
  have "err (final i) = err (final (?j\<lparr>key := k, value := v, valid := True, skip := True\<rparr>))"
    by (subst final.simps) (simp add: n)
  also have "\<dots> = err (final (?r\<lparr>valid := False\<rparr>))"
    unfolding final_emitted [OF e] j ..
  also have "\<dots> = err (final ?r)" by (simp only: final_valid [OF er])
  finally show "err (final i) = err (final ?r)" .
qed

lemma outputs_Delete_elide:
  assumes "err i = None"
    and "(if skip i then iter_NextUserKey (cmp i) (iter i) else iter i) = (k, v) # rest"
    and "Kind k = InternalKeyKindDelete" and "elideTombstone i (UserKey k)"
  shows "outputs i = outputs (i\<lparr>skip := False, iter := iter_NextUserKey (cmp i) ((k, v) # rest)\<rparr>)"
    and "err (final i) = err (final (i\<lparr>skip := False, iter := iter_NextUserKey (cmp i) ((k, v) # rest)\<rparr>))"
proof -
  let ?j = "i\<lparr>skip := False, iter := (k, v) # rest, valid := False\<rparr>"
  let ?r = "i\<lparr>skip := False, iter := iter_NextUserKey (cmp i) ((k, v) # rest)\<rparr>"
  have "Next i = Next_loop ?j"
    by (rule Next_reach [OF assms(1,2)])
  also have "\<dots> = Next_loop (?j\<lparr>key := fst (k, v), iter := iter_NextUserKey (cmp ?j) (iter ?j)\<rparr>)"
    using assms(3,4) by (intro Next_loop_Delete_elide [of _ _ rest]) simp_all
  also have "?j\<lparr>key := fst (k, v), iter := iter_NextUserKey (cmp ?j) (iter ?j)\<rparr>
      = ?r\<lparr>valid := False, key := k, value := value i\<rparr>"
    by simp
  finally have n: "Next i = Next_loop (?r\<lparr>valid := False, key := k, value := value i\<rparr>)" .
  have r: "Next ?r = Next_loop (?r\<lparr>valid := False\<rparr>)"
    using assms(1) by (simp add: Next_def)
  note kv = Next_loop_key_value [where i = "?r\<lparr>valid := False\<rparr>" and ka = k and va = "value i"]
  from kv have a: "fst (Next i) = fst (Next ?r)" unfolding n r by blast
  from kv have b: "fst (Next ?r) \<Longrightarrow> snd (Next i) = snd (Next ?r)" unfolding n r by blast
  from kv have c: "err (snd (Next i)) = err (snd (Next ?r))" unfolding n r by blast
  show "outputs i = outputs ?r"
    using a b by (subst outputs.simps, subst (2) outputs.simps) auto
  show "err (final i) = err (final ?r)"
    using a b c by (subst final.simps, subst (2) final.simps) auto
qed

lemma outputs_canon:
  assumes "err i = None"
  shows "outputs (i\<lparr>skip := True, iter := it, valid := b, key := ka, value := va\<rparr>)
           = outputs (i\<lparr>skip := False, iter := iter_NextUserKey (cmp i) it\<rparr>)"
    and "err (final (i\<lparr>skip := True, iter := it, valid := b, key := ka, value := va\<rparr>))
           = err (final (i\<lparr>skip := False, iter := iter_NextUserKey (cmp i) it\<rparr>))"
proof -
  let ?s = "i\<lparr>skip := True, iter := it, valid := b\<rparr>"
  let ?r = "i\<lparr>skip := False, iter := iter_NextUserKey (cmp i) it\<rparr>"
  have s: "err ?s = None" "skip ?s" using assms by simp_all
  have r: "err ?r = None" using assms by simp
  have eq: "?s\<lparr>skip := False, iter := iter_NextUserKey (cmp ?s) (iter ?s)\<rparr> = ?r\<lparr>valid := b\<rparr>"
    by simp
  have "outputs (?s\<lparr>key := ka, value := va\<rparr>) = outputs ?s"
    by (rule outputs_key_value)
  also have "\<dots> = outputs (?r\<lparr>valid := b\<rparr>)"
    unfolding outputs_skip [OF s] eq ..
  also have "\<dots> = outputs ?r"
    by (rule outputs_valid [OF r])
  finally show "outputs (i\<lparr>skip := True, iter := it, valid := b, key := ka, value := va\<rparr>) = outputs ?r"
    by simp
  have "err (final (?s\<lparr>key := ka, value := va\<rparr>)) = err (final ?s)"
    by (rule final_key_value)
  also have "\<dots> = err (final (?r\<lparr>valid := b\<rparr>))"
    unfolding final_skip [OF s] eq ..
  also have "\<dots> = err (final ?r)"
    by (simp only: final_valid [OF r])
  finally show "err (final (i\<lparr>skip := True, iter := it, valid := b, key := ka, value := va\<rparr>))
      = err (final ?r)"
    by simp
qed

lemma mergeNext_loop_chain:
  assumes "iter i = ea # ms @ rest"
    and "\<forall>e\<in>set ms. Kind (fst e) = InternalKeyKindMerge \<and> cmp i (UserKey (key i)) (UserKey (fst e)) = 0"
  shows "mergeNext_loop i =
           mergeNext_loop (i\<lparr>iter := last (ea # ms) # rest,
             value := foldl (\<lambda>acc v. merge i (UserKey (key i)) acc v []) (value i) (map snd ms)\<rparr>)"
  using assms
proof (induction ms arbitrary: i ea)
  case Nil
  then have "i\<lparr>iter := last [ea] # rest,
      value := foldl (\<lambda>acc v. merge i (UserKey (key i)) acc v []) (value i) (map snd [])\<rparr> = i"
    using Nil.prems(1) by simp
  from this [symmetric] show ?case by (rule arg_cong)
next
  case (Cons m ms)
  let ?f = "\<lambda>acc v. merge i (UserKey (key i)) acc v []"
  let ?i' = "i\<lparr>iter := m # ms @ rest, value := ?f (value i) (snd m)\<rparr>"
  have n: "iter_Next (iter i) = m # ms @ rest"
    using Cons.prems(1) by (simp add: iter_Next_def)
  have p1: "iter ?i' = m # ms @ rest"
    by simp
  have p2: "\<forall>e\<in>set ms. Kind (fst e) = InternalKeyKindMerge \<and>
              cmp ?i' (UserKey (key ?i')) (UserKey (fst e)) = 0"
    using Cons.prems(2) by simp
  have a: "mergeNext_loop i = mergeNext_loop ?i'"
    using Cons.prems(2) by (intro mergeNext_loop_Merge [OF n]) simp_all
  have c: "?i'\<lparr>iter := last (m # ms) # rest,
      value := foldl (\<lambda>acc v. merge ?i' (UserKey (key ?i')) acc v []) (value ?i') (map snd ms)\<rparr>
     = i\<lparr>iter := last (ea # m # ms) # rest, value := foldl ?f (value i) (map snd (m # ms))\<rparr>"
    by simp
  show ?case
    unfolding a by (rule trans [OF Cons.IH [OF p1 p2] arg_cong [where f = mergeNext_loop, OF c]])
qed

text \<open>The call of \<open>Next\<close> that reaches a Merge entry followed by further Merge entries.\<close>

lemma Next_Merge_chain:
  assumes "err i = None"
    and "(if skip i then iter_NextUserKey (cmp i) (iter i) else iter i) = (k1, v1) # ms @ rest"
    and "Kind k1 = InternalKeyKindMerge"
    and "\<forall>e\<in>set ms. Kind (fst e) = InternalKeyKindMerge \<and> cmp i (UserKey k1) (UserKey (fst e)) = 0"
  shows "Next i = mergeNext_loop (i\<lparr>skip := True, iter := last ((k1, v1) # ms) # rest, valid := True,
           key := k1, value := foldl (\<lambda>acc v. merge i (UserKey k1) acc v []) v1 (map snd ms)\<rparr>)"
proof -
  let ?j = "i\<lparr>skip := False, iter := (k1, v1) # ms @ rest, valid := False\<rparr>"
  let ?m = "?j\<lparr>key := fst (k1, v1), value := snd (k1, v1), valid := True, skip := True\<rparr>"
  have a: "Next i = Next_loop ?j"
    by (rule Next_reach [OF assms(1,2)])
  have b: "Next_loop ?j = mergeNext_loop ?m"
    using assms(3) by (intro Next_loop_Merge [of _ _ "ms @ rest"]) simp_all
  have p1: "iter ?m = (k1, v1) # ms @ rest"
    by simp
  have p2: "\<forall>e\<in>set ms. Kind (fst e) = InternalKeyKindMerge \<and>
              cmp ?m (UserKey (key ?m)) (UserKey (fst e)) = 0"
    using assms(4) by simp
  have c: "?m\<lparr>iter := last ((k1, v1) # ms) # rest,
      value := foldl (\<lambda>acc v. merge ?m (UserKey (key ?m)) acc v []) (value ?m) (map snd ms)\<rparr>
    = i\<lparr>skip := True, iter := last ((k1, v1) # ms) # rest, valid := True,
           key := k1, value := foldl (\<lambda>acc v. merge i (UserKey k1) acc v []) v1 (map snd ms)\<rparr>"
    by simp
  show ?thesis
    unfolding a b by (rule trans [OF mergeNext_loop_chain [OF p1 p2] arg_cong [where f = mergeNext_loop, OF c]])
qed

lemma Next_Merge_chain_Set:
  assumes "err i = None"
    and "(if skip i then iter_NextUserKey (cmp i) (iter i) else iter i) = (k1, v1) # ms @ (ks, vs) # rest"
    and "Kind k1 = InternalKeyKindMerge"
    and "\<forall>e\<in>set ms. Kind (fst e) = InternalKeyKindMerge \<and> cmp i (UserKey k1) (UserKey (fst e)) = 0"
    and "Kind ks = InternalKeyKindSet" and "cmp i (UserKey k1) (UserKey ks) = 0"
  shows "Next i = (True, i\<lparr>skip := True, iter := (ks, vs) # rest, valid := True,
           key := SetKind k1 InternalKeyKindSet,
           value := merge i (UserKey k1)
             (foldl (\<lambda>acc v. merge i (UserKey k1) acc v []) v1 (map snd ms)) vs []\<rparr>)"
proof -
  let ?acc = "foldl (\<lambda>acc v. merge i (UserKey k1) acc v []) v1 (map snd ms)"
  let ?m = "i\<lparr>skip := True, iter := last ((k1, v1) # ms) # (ks, vs) # rest, valid := True,
           key := k1, value := ?acc\<rparr>"
  have a: "Next i = mergeNext_loop ?m"
    by (rule Next_Merge_chain [OF assms(1,2,3,4)])
  have n: "iter_Next (iter ?m) = (ks, vs) # rest"
    by (simp add: iter_Next_def)
  have b: "mergeNext_loop ?m = (True, ?m\<lparr>iter := (ks, vs) # rest,
       value := merge ?m (UserKey (key ?m)) (value ?m) (snd (ks, vs)) [],
       key := SetKind (key ?m) InternalKeyKindSet\<rparr>)"
    using assms(5,6) by (intro mergeNext_loop_Set [OF n]) simp_all
  have c: "?m\<lparr>iter := (ks, vs) # rest,
       value := merge ?m (UserKey (key ?m)) (value ?m) (snd (ks, vs)) [],
       key := SetKind (key ?m) InternalKeyKindSet\<rparr>
     = i\<lparr>skip := True, iter := (ks, vs) # rest, valid := True,
           key := SetKind k1 InternalKeyKindSet, value := merge i (UserKey k1) ?acc vs []\<rparr>"
    by simp
  show ?thesis
    unfolding a b c ..
qed

lemma Next_Merge_chain_invalid:
  assumes "err i = None"
    and "(if skip i then iter_NextUserKey (cmp i) (iter i) else iter i) = (k1, v1) # ms @ (k, v) # rest"
    and "Kind k1 = InternalKeyKindMerge"
    and "\<forall>e\<in>set ms. Kind (fst e) = InternalKeyKindMerge \<and> cmp i (UserKey k1) (UserKey (fst e)) = 0"
    and "cmp i (UserKey k1) (UserKey k) = 0"
    and "Kind k \<noteq> InternalKeyKindDelete" "Kind k \<noteq> InternalKeyKindSet" "Kind k \<noteq> InternalKeyKindMerge"
  shows "fst (Next i) = False"
    and "err (snd (Next i)) = Some (InvalidInternalKeyKind InternalKeyKindMerge)"
proof -
  let ?acc = "foldl (\<lambda>acc v. merge i (UserKey k1) acc v []) v1 (map snd ms)"
  let ?m = "i\<lparr>skip := True, iter := last ((k1, v1) # ms) # (k, v) # rest, valid := True,
           key := k1, value := ?acc\<rparr>"
  have a: "Next i = mergeNext_loop ?m"
    by (rule Next_Merge_chain [OF assms(1,2,3,4)])
  have t: "iter_Next (iter ?m) = (k, v) # rest"
    by (simp add: iter_Next_def)
  have b: "mergeNext_loop ?m = (False, ?m\<lparr>iter := (k, v) # rest,
       err := Some (InvalidInternalKeyKind (Kind (key ?m)))\<rparr>)"
    using assms(5-) by (intro mergeNext_loop_other [OF t]) simp_all
  have n: "Next i = (False, ?m\<lparr>iter := (k, v) # rest,
       err := Some (InvalidInternalKeyKind (Kind (key ?m)))\<rparr>)"
    unfolding a b ..
  show "fst (Next i) = False" by (simp add: n)
  show "err (snd (Next i)) = Some (InvalidInternalKeyKind InternalKeyKindMerge)"
    by (simp add: n assms(3))
qed

lemma Next_invalid_kind:
  assumes "err i = None"
    and "(if skip i then iter_NextUserKey (cmp i) (iter i) else iter i) = (k, v) # rest"
    and "Kind k \<noteq> InternalKeyKindDelete" "Kind k \<noteq> InternalKeyKindSet" "Kind k \<noteq> InternalKeyKindMerge"
  shows "fst (Next i) = False"
    and "err (snd (Next i)) = Some (InvalidInternalKeyKind (Kind k))"
proof -
  let ?j = "i\<lparr>skip := False, iter := (k, v) # rest, valid := False\<rparr>"
  have a: "Next i = Next_loop ?j"
    by (rule Next_reach [OF assms(1,2)])
  have b: "Next_loop ?j = (False, ?j\<lparr>key := fst (k, v), err := Some (InvalidInternalKeyKind (Kind (fst (k, v))))\<rparr>)"
    using assms(3-) by (intro Next_loop_other [of _ _ rest]) simp_all
  have n: "Next i = (False, ?j\<lparr>key := fst (k, v), err := Some (InvalidInternalKeyKind (Kind (fst (k, v))))\<rparr>)"
    unfolding a b ..
  show "fst (Next i) = False" by (simp add: n)
  show "err (snd (Next i)) = Some (InvalidInternalKeyKind (Kind k))" by (simp add: n)
qed

lemma Next_latched: "err i \<noteq> None \<Longrightarrow> Next i = (False, i)"
  by (simp add: Next_def)

lemma outputs_stop: "\<not> fst (Next i) \<Longrightarrow> outputs i = []"
  by (subst outputs.simps) simp

lemma final_stop: "\<not> fst (Next i) \<Longrightarrow> final i = snd (Next i)"
  by (subst final.simps) simp

subsection \<open>Where emitted keys come from\<close>

lemma set_iter_Next: "iter_Next it = e # rest \<Longrightarrow> set (e # rest) \<subseteq> set it"
  by (cases it) (auto simp: iter_Next_def)

lemma set_iter_NextUserKey: "set (iter_NextUserKey c it) \<subseteq> set it"
  by (cases it) (auto simp: iter_NextUserKey_def dest: set_dropWhileD)

lemma mergeNext_loop_res:
  "valid (snd (mergeNext_loop i)) = valid i \<and>
   (fst (mergeNext_loop i) \<longrightarrow>
      err (snd (mergeNext_loop i)) = err i \<and>
      (key (snd (mergeNext_loop i)) = key i \<or>
       key (snd (mergeNext_loop i)) = SetKind (key i) InternalKeyKindSet)) \<and>
   (\<not> fst (mergeNext_loop i) \<longrightarrow> err (snd (mergeNext_loop i)) \<noteq> None) \<and>
   set (iter (snd (mergeNext_loop i))) \<subseteq> set (iter i)"
proof (induction i rule: mergeNext_loop.induct)
  case (1 i)
  show ?case
  proof (cases "iter_Next (iter i)")
    case Nil
    then show ?thesis by (simp add: mergeNext_loop_end)
  next
    case (Cons e rest)
    note sub = set_iter_Next [OF Cons]
    consider (other_key) "cmp i (UserKey (key i)) (UserKey (fst e)) \<noteq> 0"
      | (del) "cmp i (UserKey (key i)) (UserKey (fst e)) = 0" "Kind (fst e) = InternalKeyKindDelete"
      | (set) "cmp i (UserKey (key i)) (UserKey (fst e)) = 0" "Kind (fst e) = InternalKeyKindSet"
      | (merge) "cmp i (UserKey (key i)) (UserKey (fst e)) = 0" "Kind (fst e) = InternalKeyKindMerge"
      | (other) "cmp i (UserKey (key i)) (UserKey (fst e)) = 0" "Kind (fst e) \<noteq> InternalKeyKindDelete"
          "Kind (fst e) \<noteq> InternalKeyKindSet" "Kind (fst e) \<noteq> InternalKeyKindMerge"
      by blast
    then show ?thesis
    proof cases
      case other_key
      with sub show ?thesis by (simp add: mergeNext_loop_other_key [OF Cons])
    next
      case del
      with sub show ?thesis by (simp add: mergeNext_loop_Delete [OF Cons])
    next
      case set
      with sub show ?thesis by (simp add: mergeNext_loop_Set [OF Cons])
    next
      case merge
      have ih: "valid (snd (mergeNext_loop (i\<lparr>iter := e # rest,
                    value := merge i (UserKey (key i)) (value i) (snd e) []\<rparr>))) = valid i \<and>
        (fst (mergeNext_loop (i\<lparr>iter := e # rest,
                    value := merge i (UserKey (key i)) (value i) (snd e) []\<rparr>)) \<longrightarrow>
           err (snd (mergeNext_loop (i\<lparr>iter := e # rest,
                    value := merge i (UserKey (key i)) (value i) (snd e) []\<rparr>))) = err i \<and>
           (key (snd (mergeNext_loop (i\<lparr>iter := e # rest,
                    value := merge i (UserKey (key i)) (value i) (snd e) []\<rparr>))) = key i \<or>
            key (snd (mergeNext_loop (i\<lparr>iter := e # rest,
                    value := merge i (UserKey (key i)) (value i) (snd e) []\<rparr>)))
              = SetKind (key i) InternalKeyKindSet)) \<and>
        (\<not> fst (mergeNext_loop (i\<lparr>iter := e # rest,
                    value := merge i (UserKey (key i)) (value i) (snd e) []\<rparr>)) \<longrightarrow>
           err (snd (mergeNext_loop (i\<lparr>iter := e # rest,
                    value := merge i (UserKey (key i)) (value i) (snd e) []\<rparr>))) \<noteq> None) \<and>
        set (iter (snd (mergeNext_loop (i\<lparr>iter := e # rest,
                    value := merge i (UserKey (key i)) (value i) (snd e) []\<rparr>)))) \<subseteq> set (e # rest)"
        using "1.IH" [OF Cons] merge by simp
      from ih sub show ?thesis
        unfolding mergeNext_loop_Merge [OF Cons merge] by blast
    next
      case other
      with sub show ?thesis by (simp add: mergeNext_loop_other [OF Cons])
    qed
  qed
qed

lemma Kind_SetKind: "Kind (SetKind k kd) = kd"
  unfolding Kind_def SetKind_def
  apply (simp add: ff_mask)
  apply (rule bit_word_eqI)
  apply (auto simp: bit_simps dest: bit_imp_le_length)
  done

lemma SeqNum_SetKind: "SeqNum (SetKind k kd) = SeqNum k"
  unfolding SeqNum_def SetKind_def
  apply (simp add: ff_mask)
  apply (rule bit_word_eqI)
  apply (auto simp: bit_simps dest: bit_imp_le_length)
  done

lemma UserKey_SetKind: "UserKey (SetKind k kd) = UserKey k"
  by (simp add: SetKind_def)

lemma Next_loop_res:
  "(fst (Next_loop i) \<longrightarrow>
      valid (snd (Next_loop i)) \<and> err (snd (Next_loop i)) = err i \<and>
      (\<exists>e\<in>set (iter i).
         key (snd (Next_loop i)) = fst e \<and>
           (Kind (fst e) = InternalKeyKindDelete \<or> Kind (fst e) = InternalKeyKindSet \<or>
            Kind (fst e) = InternalKeyKindMerge) \<or>
         Kind (fst e) = InternalKeyKindMerge \<and>
           key (snd (Next_loop i)) = SetKind (fst e) InternalKeyKindSet)) \<and>
   (\<not> fst (Next_loop i) \<longrightarrow>
      err (snd (Next_loop i)) \<noteq> None \<or>
      valid (snd (Next_loop i)) = valid i \<and> err (snd (Next_loop i)) = err i) \<and>
   set (iter (snd (Next_loop i))) \<subseteq> set (iter i)"
proof (induction i rule: Next_loop.induct)
  case (1 i)
  show ?case
  proof (cases "iter i")
    case Nil
    then show ?thesis by (simp add: Next_loop_Nil)
  next
    case (Cons e rest)
    consider (del_elide) "Kind (fst e) = InternalKeyKindDelete" "elideTombstone i (UserKey (fst e))"
      | (del_emit) "Kind (fst e) = InternalKeyKindDelete" "\<not> elideTombstone i (UserKey (fst e))"
      | (set) "Kind (fst e) = InternalKeyKindSet"
      | (merge) "Kind (fst e) = InternalKeyKindMerge"
      | (other) "Kind (fst e) \<noteq> InternalKeyKindDelete" "Kind (fst e) \<noteq> InternalKeyKindSet"
          "Kind (fst e) \<noteq> InternalKeyKindMerge"
      by blast
    then show ?thesis
    proof cases
      case del_elide
      let ?n = "Next_loop (i\<lparr>key := fst e, iter := iter_NextUserKey (cmp i) (iter i)\<rparr>)"
      have sub: "set (iter_NextUserKey (cmp i) (iter i)) \<subseteq> set (iter i)"
        by (rule set_iter_NextUserKey)
      have ih: "(fst ?n \<longrightarrow>
          valid (snd ?n) \<and> err (snd ?n) = err i \<and>
          (\<exists>e\<in>set (iter_NextUserKey (cmp i) (iter i)).
             key (snd ?n) = fst e \<and>
               (Kind (fst e) = InternalKeyKindDelete \<or> Kind (fst e) = InternalKeyKindSet \<or>
                Kind (fst e) = InternalKeyKindMerge) \<or>
             Kind (fst e) = InternalKeyKindMerge \<and>
               key (snd ?n) = SetKind (fst e) InternalKeyKindSet)) \<and>
        (\<not> fst ?n \<longrightarrow> err (snd ?n) \<noteq> None \<or> valid (snd ?n) = valid i \<and> err (snd ?n) = err i) \<and>
        set (iter (snd ?n)) \<subseteq> set (iter_NextUserKey (cmp i) (iter i))"
        using "1.IH" [OF Cons del_elide] by simp
      from ih sub show ?thesis
        unfolding Next_loop_Delete_elide [OF Cons del_elide] by blast
    next
      case del_emit
      with Cons show ?thesis
        by (simp add: Next_loop_Delete_emit [OF Cons])
    next
      case set
      with Cons show ?thesis
        by (simp add: Next_loop_Set [OF Cons])
    next
      case merge
      let ?m = "i\<lparr>key := fst e, value := snd e, valid := True, skip := True\<rparr>"
      from mergeNext_loop_res [of ?m] Cons merge show ?thesis
        unfolding Next_loop_Merge [OF Cons merge] by auto
    next
      case other
      with Cons show ?thesis
        by (simp add: Next_loop_other [OF Cons])
    qed
  qed
qed

lemma Next_res:
  assumes "err i = None"
  shows "fst (Next i) = (valid (snd (Next i)) \<and> err (snd (Next i)) = None)"
    and "fst (Next i) \<Longrightarrow> \<exists>e\<in>set (iter i).
         key (snd (Next i)) = fst e \<and>
           (Kind (fst e) = InternalKeyKindDelete \<or> Kind (fst e) = InternalKeyKindSet \<or>
            Kind (fst e) = InternalKeyKindMerge) \<or>
         Kind (fst e) = InternalKeyKindMerge \<and>
           key (snd (Next i)) = SetKind (fst e) InternalKeyKindSet"
    and "set (iter (snd (Next i))) \<subseteq> set (iter i)"
proof -
  define it where "it = (if skip i then iter_NextUserKey (cmp i) (iter i) else iter i)"
  let ?j = "i\<lparr>skip := False, iter := it, valid := False\<rparr>"
  have n: "Next i = Next_loop ?j"
    by (rule Next_reach [OF assms]) (simp add: it_def)
  have sub: "set it \<subseteq> set (iter i)"
    using set_iter_NextUserKey [of "cmp i" "iter i"] by (simp add: it_def)
  have j: "iter ?j = it" "valid ?j = False" "err ?j = None"
    using assms by simp_all
  note r = Next_loop_res [of ?j, unfolded j]
  from r show "fst (Next i) = (valid (snd (Next i)) \<and> err (snd (Next i)) = None)"
    unfolding n by blast
  from r sub show "set (iter (snd (Next i))) \<subseteq> set (iter i)"
    unfolding n by blast
  assume "fst (Next i)"
  with r sub show "\<exists>e\<in>set (iter i).
         key (snd (Next i)) = fst e \<and>
           (Kind (fst e) = InternalKeyKindDelete \<or> Kind (fst e) = InternalKeyKindSet \<or>
            Kind (fst e) = InternalKeyKindMerge) \<or>
         Kind (fst e) = InternalKeyKindMerge \<and>
           key (snd (Next i)) = SetKind (fst e) InternalKeyKindSet"
    unfolding n by blast
qed

lemma Next_err_None: "fst (Next i) \<Longrightarrow> err i = None"
  by (auto simp: Next_def split: if_splits)

lemma outputs_source:
  "r \<in> set (outputs i) \<Longrightarrow>
   \<exists>e\<in>set (iter i).
     fst r = fst e \<and>
       (Kind (fst e) = InternalKeyKindDelete \<or> Kind (fst e) = InternalKeyKindSet \<or>
        Kind (fst e) = InternalKeyKindMerge) \<or>
     Kind (fst e) = InternalKeyKindMerge \<and> fst r = SetKind (fst e) InternalKeyKindSet"
proof (induction i rule: outputs.induct)
  case (1 i)
  from "1.prems" have t: "fst (Next i)"
    by (subst (asm) outputs.simps) (auto split: if_splits)
  then have e: "err i = None" by (rule Next_err_None)
  from "1.prems" t have "r = (key (snd (Next i)), value (snd (Next i))) \<or> r \<in> set (outputs (snd (Next i)))"
    by (subst (asm) outputs.simps) auto
  then show ?case
  proof
    assume "r = (key (snd (Next i)), value (snd (Next i)))"
    with Next_res(2) [OF e t] show ?thesis by simp
  next
    assume "r \<in> set (outputs (snd (Next i)))"
    from "1.IH" [OF t this] Next_res(3) [OF e] show ?thesis by blast
  qed
qed

lemma compaction_outputs:
  assumes "err i = None"
  shows "compaction i input = (outputs (i\<lparr>iter := input\<rparr>), err (final (i\<lparr>iter := input\<rparr>)))"
proof -
  let ?j = "i\<lparr>iter := input\<rparr>"
  have e: "err ?j = None" using assms by simp
  have f: "First i input = snd (Next ?j)" using assms by (simp add: First_def)
  show ?thesis
  proof (cases "fst (Next ?j)")
    case True
    with Next_res(1) [OF e] have v: "valid (snd (Next ?j)) \<and> err (snd (Next ?j)) = None" by simp
    have o: "outputs ?j = (key (snd (Next ?j)), value (snd (Next ?j))) # outputs (snd (Next ?j))"
      using True by (subst outputs.simps) simp
    have l: "final ?j = final (snd (Next ?j))"
      using True by (subst final.simps) simp
    show ?thesis
      unfolding compaction_def f o l using v by (simp add: Let_def)
  next
    case False
    with Next_res(1) [OF e] have v: "\<not> (valid (snd (Next ?j)) \<and> err (snd (Next ?j)) = None)" by simp
    show ?thesis
      unfolding compaction_def f outputs_stop [OF False] final_stop [OF False] using v
      by (simp add: Let_def)
  qed
qed

lemma unassigned_kind:
  fixes kd :: InternalKeyKind
  assumes "4 \<le> kd \<and> kd \<le> 14 \<or> kd = 16"
  shows "kd \<le> InternalKeyKindMax" "kd \<noteq> InternalKeyKindDelete" "kd \<noteq> InternalKeyKindSet"
    "kd \<noteq> InternalKeyKindMerge"
  using assms by (auto simp: word_le_nat_alt)

lemma Next_error_stops:
  assumes "\<not> fst (Next i)" and "err (snd (Next i)) = Some x"
  shows "Next (snd (Next i)) = (False, snd (Next i))" and "outputs i = []"
    and "err (final i) = Some x"
  using assms by (simp_all add: Next_latched outputs_stop final_stop)

lemma outputs_kinds:
  assumes "r \<in> set (outputs j)"
  shows "Kind (fst r) = InternalKeyKindDelete \<or> Kind (fst r) = InternalKeyKindSet \<or>
         Kind (fst r) = InternalKeyKindMerge"
  using outputs_source [OF assms] by (auto simp: Kind_SetKind)

subsection \<open>Tombstones\<close>

text \<open>
  C1, as the code has it. The iterator takes no snapshot list: all records of a user key
  form one stripe. When the record a call of \<open>Next\<close> reaches first is a Delete (the
  newest record of its user key that the iterator has not skipped), it is left out of the
  output exactly when \<open>elideTombstone\<close> holds for its user key and emitted otherwise;
  either way every remaining record of that user key is skipped, and the run goes on
  from the next user key.
\<close>

theorem Delete_elided_or_emitted:
  assumes "err i = None"
    and "(if skip i then iter_NextUserKey (cmp i) (iter i) else iter i) = (k, v) # rest"
    and "Kind k = InternalKeyKindDelete"
  shows "outputs i =
           (if elideTombstone i (UserKey k) then [] else [(k, v)]) @
           outputs (i\<lparr>skip := False, iter := iter_NextUserKey (cmp i) ((k, v) # rest)\<rparr>) \<and>
         err (final i) =
           err (final (i\<lparr>skip := False, iter := iter_NextUserKey (cmp i) ((k, v) # rest)\<rparr>))"
proof (cases "elideTombstone i (UserKey k)")
  case True
  with outputs_Delete_elide [OF assms] show ?thesis by simp
next
  case False
  with assms(3) have "Kind k = InternalKeyKindDelete \<and> \<not> elideTombstone i (UserKey k) \<or> Kind k = InternalKeyKindSet"
    by simp
  from outputs_Delete_emit [OF assms(1,2) this] False show ?thesis by simp
qed

theorem Delete_elided_or_emitted_witness:
  "Kind (MakeInternalKey [97] 2 InternalKeyKindDelete) = InternalKeyKindDelete \<and>
   \<not> never_elide [97] \<and> always_elide [97] \<and>
   outputs ((newCompactionIter never_elide)\<lparr>iter :=
      [(MakeInternalKey [97] 2 InternalKeyKindDelete, []),
       (MakeInternalKey [97] 1 InternalKeyKindSet, [89])]\<rparr>)
     = [(MakeInternalKey [97] 2 InternalKeyKindDelete, [])] \<and>
   outputs ((newCompactionIter always_elide)\<lparr>iter :=
      [(MakeInternalKey [97] 2 InternalKeyKindDelete, []),
       (MakeInternalKey [97] 1 InternalKeyKindSet, [89])]\<rparr>) = []"
proof -
  let ?k = "MakeInternalKey [97] 2 InternalKeyKindDelete"
  let ?rest = "[(MakeInternalKey [97] 1 InternalKeyKindSet, [89])]"
  let ?n = "(newCompactionIter never_elide)\<lparr>iter := (?k, []) # ?rest\<rparr>"
  let ?a = "(newCompactionIter always_elide)\<lparr>iter := (?k, []) # ?rest\<rparr>"
  have k: "Kind ?k = InternalKeyKindDelete" by (rule Kind_MakeInternalKey)
  have u: "UserKey ?k = [97]" by (simp add: MakeInternalKey_def)
  have en: "err ?n = None" and ea: "err ?a = None"
    by (simp_all add: newCompactionIter_def)
  have pn: "(if skip ?n then iter_NextUserKey (cmp ?n) (iter ?n) else iter ?n) = (?k, []) # ?rest"
    and pa: "(if skip ?a then iter_NextUserKey (cmp ?a) (iter ?a) else iter ?a) = (?k, []) # ?rest"
    by (simp_all add: newCompactionIter_def)
  have eln: "\<not> elideTombstone ?n (UserKey ?k)" and ela: "elideTombstone ?a (UserKey ?k)"
    by (simp_all add: newCompactionIter_def never_elide_def always_elide_def)
  have rn: "outputs (?n\<lparr>skip := False, iter := iter_NextUserKey (cmp ?n) ((?k, []) # ?rest)\<rparr>) = []"
    by code_simp
  have ra: "outputs (?a\<lparr>skip := False, iter := iter_NextUserKey (cmp ?a) ((?k, []) # ?rest)\<rparr>) = []"
    by code_simp
  from Delete_elided_or_emitted [OF en pn k] eln rn
  have 1: "outputs ?n = [(?k, [])]" by simp
  from Delete_elided_or_emitted [OF ea pa k] ela ra
  have 2: "outputs ?a = []" by simp
  from 1 2 k show ?thesis by (simp add: never_elide_def always_elide_def)
qed

text \<open>
  C1 as stated fails. On the input \<open>a.PUT.9 a.DEL.8 a.PUT.7 a.DEL.6 a.PUT.5\<close> with
  \<open>elideTombstone\<close> false everywhere, only \<open>a.PUT.9\<close> is emitted: both Delete records
  are left out although \<open>elideTombstone\<close> does not hold, \<open>a.DEL.8\<close> shadowed in any
  reading and \<open>a.DEL.6\<close> even where a snapshot at 6 would put it first in the oldest
  stripe.
\<close>

theorem Delete_shadowed_counterexample:
  "\<not> never_elide [97] \<and>
   compaction (newCompactionIter never_elide) example_E5
     = ([(MakeInternalKey [97] 9 InternalKeyKindSet, [88])], None)"
  by code_simp

subsection \<open>Kinds the iterator does not accept\<close>

text \<open>
  C9. A kind \<open>kd\<close> with \<open>4 \<le> kd \<le> 14\<close> or \<open>kd = 16\<close> passes \<open>Valid\<close>, which only
  checks \<open>kind \<le> 17\<close>. A call of \<open>Next\<close> that meets a record of that kind, as the
  first record it reaches or while it collapses Merge records of the same user key,
  reports false and latches an "invalid internal key kind" error (printing the offending
  kind in the first case and the kind of the saved Merge key in the second); every later
  call reports false, so nothing more is emitted.
\<close>

theorem unassigned_kind_valid_but_rejected:
  assumes "4 \<le> kd \<and> kd \<le> 14 \<or> kd = 16" and "Kind k = kd" and "err i = None"
  shows "Valid k \<and>
    ((if skip i then iter_NextUserKey (cmp i) (iter i) else iter i) = (k, v) # rest \<longrightarrow>
       \<not> fst (Next i) \<and> err (snd (Next i)) = Some (InvalidInternalKeyKind kd) \<and>
       Next (snd (Next i)) = (False, snd (Next i)) \<and>
       outputs i = [] \<and> err (final i) = Some (InvalidInternalKeyKind kd)) \<and>
    ((if skip i then iter_NextUserKey (cmp i) (iter i) else iter i) = (km, vm) # ms @ (k, v) # rest \<and>
     Kind km = InternalKeyKindMerge \<and>
     (\<forall>e\<in>set ms. Kind (fst e) = InternalKeyKindMerge \<and> cmp i (UserKey km) (UserKey (fst e)) = 0) \<and>
     cmp i (UserKey km) (UserKey k) = 0 \<longrightarrow>
       \<not> fst (Next i) \<and> err (snd (Next i)) = Some (InvalidInternalKeyKind InternalKeyKindMerge) \<and>
       Next (snd (Next i)) = (False, snd (Next i)) \<and>
       outputs i = [] \<and> err (final i) = Some (InvalidInternalKeyKind InternalKeyKindMerge))"
proof (intro conjI impI)
  note kd = unassigned_kind [OF assms(1), folded assms(2)]
  show "Valid k" using kd(1) by (simp add: Valid_def)
  {
    assume a: "(if skip i then iter_NextUserKey (cmp i) (iter i) else iter i) = (k, v) # rest"
    note n = Next_invalid_kind [OF assms(3) a kd(2,3,4), unfolded assms(2)]
    from n(1) show f: "\<not> fst (Next i)" by simp
    show "err (snd (Next i)) = Some (InvalidInternalKeyKind kd)" by (rule n(2))
    show "Next (snd (Next i)) = (False, snd (Next i))" by (rule Next_error_stops(1) [OF f n(2)])
    show "outputs i = []" by (rule Next_error_stops(2) [OF f n(2)])
    show "err (final i) = Some (InvalidInternalKeyKind kd)" by (rule Next_error_stops(3) [OF f n(2)])
  }
  {
    assume a: "(if skip i then iter_NextUserKey (cmp i) (iter i) else iter i) = (km, vm) # ms @ (k, v) # rest \<and>
     Kind km = InternalKeyKindMerge \<and>
     (\<forall>e\<in>set ms. Kind (fst e) = InternalKeyKindMerge \<and> cmp i (UserKey km) (UserKey (fst e)) = 0) \<and>
     cmp i (UserKey km) (UserKey k) = 0"
    then have a1: "(if skip i then iter_NextUserKey (cmp i) (iter i) else iter i) = (km, vm) # ms @ (k, v) # rest"
      and a2: "Kind km = InternalKeyKindMerge"
      and a3: "\<forall>e\<in>set ms. Kind (fst e) = InternalKeyKindMerge \<and> cmp i (UserKey km) (UserKey (fst e)) = 0"
      and a4: "cmp i (UserKey km) (UserKey k) = 0"
      by blast+
    note n = Next_Merge_chain_invalid [OF assms(3) a1 a2 a3 a4 kd(2,3,4)]
    from n(1) show f: "\<not> fst (Next i)" by simp
    show "err (snd (Next i)) = Some (InvalidInternalKeyKind InternalKeyKindMerge)" by (rule n(2))
    show "Next (snd (Next i)) = (False, snd (Next i))" by (rule Next_error_stops(1) [OF f n(2)])
    show "outputs i = []" by (rule Next_error_stops(2) [OF f n(2)])
    show "err (final i) = Some (InvalidInternalKeyKind InternalKeyKindMerge)"
      by (rule Next_error_stops(3) [OF f n(2)])
  }
qed

theorem unassigned_kind_valid_but_rejected_witness:
  "Valid (MakeInternalKey [97] 1 7) \<and>
   outputs ((newCompactionIter never_elide)\<lparr>iter := [(MakeInternalKey [97] 1 7, [120])]\<rparr>) = [] \<and>
   err (final ((newCompactionIter never_elide)\<lparr>iter := [(MakeInternalKey [97] 1 7, [120])]\<rparr>))
     = Some (InvalidInternalKeyKind 7) \<and>
   outputs ((newCompactionIter never_elide)\<lparr>iter :=
      [(MakeInternalKey [97] 3 InternalKeyKindMerge, [121]),
       (MakeInternalKey [97] 2 InternalKeyKindMerge, [122]),
       (MakeInternalKey [97] 1 7, [120])]\<rparr>) = [] \<and>
   err (final ((newCompactionIter never_elide)\<lparr>iter :=
      [(MakeInternalKey [97] 3 InternalKeyKindMerge, [121]),
       (MakeInternalKey [97] 2 InternalKeyKindMerge, [122]),
       (MakeInternalKey [97] 1 7, [120])]\<rparr>)) = Some (InvalidInternalKeyKind InternalKeyKindMerge)"
proof -
  let ?k = "MakeInternalKey [97] 1 7"
  let ?i = "(newCompactionIter never_elide)\<lparr>iter := [(?k, [120])]\<rparr>"
  let ?k3 = "MakeInternalKey [97] 3 InternalKeyKindMerge"
  let ?k2 = "MakeInternalKey [97] 2 InternalKeyKindMerge"
  let ?i2 = "(newCompactionIter never_elide)\<lparr>iter := [(?k3, [121]), (?k2, [122]), (?k, [120])]\<rparr>"
  have r: "4 \<le> (7 :: InternalKeyKind) \<and> (7 :: InternalKeyKind) \<le> 14 \<or> (7 :: InternalKeyKind) = 16"
    by simp
  have kk: "Kind ?k = 7" by (rule Kind_MakeInternalKey)
  have e: "err ?i = None" "err ?i2 = None" by (simp_all add: newCompactionIter_def)
  have p: "(if skip ?i then iter_NextUserKey (cmp ?i) (iter ?i) else iter ?i) = (?k, [120]) # []"
    by (simp add: newCompactionIter_def)
  have q: "(if skip ?i2 then iter_NextUserKey (cmp ?i2) (iter ?i2) else iter ?i2)
      = (?k3, [121]) # [(?k2, [122])] @ (?k, [120]) # [] \<and>
     Kind ?k3 = InternalKeyKindMerge \<and>
     (\<forall>e\<in>set [(?k2, [122])]. Kind (fst e) = InternalKeyKindMerge \<and>
        cmp ?i2 (UserKey ?k3) (UserKey (fst e)) = 0) \<and>
     cmp ?i2 (UserKey ?k3) (UserKey ?k) = 0"
    by (simp add: newCompactionIter_def Kind_MakeInternalKey) (simp add: MakeInternalKey_def)
  from unassigned_kind_valid_but_rejected [OF r kk e(1), where v = "[120]" and rest = "[]"] p
    unassigned_kind_valid_but_rejected [OF r kk e(2), where km = ?k3 and vm = "[121]"
      and ms = "[(?k2, [122])]" and v = "[120]" and rest = "[]"] q
  show ?thesis by blast
qed

text \<open>
  C2, as the code has it. LogData (kind 3) is not among the kinds the \<open>switch\<close> of
  \<open>Next\<close> and of \<open>mergeNext\<close> accepts. No record of kind LogData is ever emitted, by
  any run; and a call of \<open>Next\<close> that meets a LogData record, as the first record it
  reaches or while it collapses Merge records of the same user key, reports false and
  latches an "invalid internal key kind" error, after which nothing more is emitted.
\<close>

theorem LogData_rejected_never_emitted:
  assumes "Kind k = InternalKeyKindLogData" and "err i = None"
  shows "(\<forall>r\<in>set (outputs j). Kind (fst r) \<noteq> InternalKeyKindLogData) \<and>
    ((if skip i then iter_NextUserKey (cmp i) (iter i) else iter i) = (k, v) # rest \<longrightarrow>
       \<not> fst (Next i) \<and> err (snd (Next i)) = Some (InvalidInternalKeyKind InternalKeyKindLogData) \<and>
       Next (snd (Next i)) = (False, snd (Next i)) \<and>
       outputs i = [] \<and> err (final i) = Some (InvalidInternalKeyKind InternalKeyKindLogData)) \<and>
    ((if skip i then iter_NextUserKey (cmp i) (iter i) else iter i) = (km, vm) # ms @ (k, v) # rest \<and>
     Kind km = InternalKeyKindMerge \<and>
     (\<forall>e\<in>set ms. Kind (fst e) = InternalKeyKindMerge \<and> cmp i (UserKey km) (UserKey (fst e)) = 0) \<and>
     cmp i (UserKey km) (UserKey k) = 0 \<longrightarrow>
       \<not> fst (Next i) \<and> err (snd (Next i)) = Some (InvalidInternalKeyKind InternalKeyKindMerge) \<and>
       Next (snd (Next i)) = (False, snd (Next i)) \<and>
       outputs i = [] \<and> err (final i) = Some (InvalidInternalKeyKind InternalKeyKindMerge))"
proof (intro conjI impI ballI)
  have kd: "Kind k \<noteq> InternalKeyKindDelete" "Kind k \<noteq> InternalKeyKindSet"
    "Kind k \<noteq> InternalKeyKindMerge"
    by (simp_all add: assms(1))
  {
    fix r assume "r \<in> set (outputs j)"
    from outputs_kinds [OF this] show "Kind (fst r) \<noteq> InternalKeyKindLogData" by auto
  }
  {
    assume a: "(if skip i then iter_NextUserKey (cmp i) (iter i) else iter i) = (k, v) # rest"
    note n = Next_invalid_kind [OF assms(2) a kd, unfolded assms(1)]
    from n(1) show f: "\<not> fst (Next i)" by simp
    show "err (snd (Next i)) = Some (InvalidInternalKeyKind InternalKeyKindLogData)" by (rule n(2))
    show "Next (snd (Next i)) = (False, snd (Next i))" by (rule Next_error_stops(1) [OF f n(2)])
    show "outputs i = []" by (rule Next_error_stops(2) [OF f n(2)])
    show "err (final i) = Some (InvalidInternalKeyKind InternalKeyKindLogData)"
      by (rule Next_error_stops(3) [OF f n(2)])
  }
  {
    assume a: "(if skip i then iter_NextUserKey (cmp i) (iter i) else iter i) = (km, vm) # ms @ (k, v) # rest \<and>
     Kind km = InternalKeyKindMerge \<and>
     (\<forall>e\<in>set ms. Kind (fst e) = InternalKeyKindMerge \<and> cmp i (UserKey km) (UserKey (fst e)) = 0) \<and>
     cmp i (UserKey km) (UserKey k) = 0"
    then have a1: "(if skip i then iter_NextUserKey (cmp i) (iter i) else iter i) = (km, vm) # ms @ (k, v) # rest"
      and a2: "Kind km = InternalKeyKindMerge"
      and a3: "\<forall>e\<in>set ms. Kind (fst e) = InternalKeyKindMerge \<and> cmp i (UserKey km) (UserKey (fst e)) = 0"
      and a4: "cmp i (UserKey km) (UserKey k) = 0"
      by blast+
    note n = Next_Merge_chain_invalid [OF assms(2) a1 a2 a3 a4 kd]
    from n(1) show f: "\<not> fst (Next i)" by simp
    show "err (snd (Next i)) = Some (InvalidInternalKeyKind InternalKeyKindMerge)" by (rule n(2))
    show "Next (snd (Next i)) = (False, snd (Next i))" by (rule Next_error_stops(1) [OF f n(2)])
    show "outputs i = []" by (rule Next_error_stops(2) [OF f n(2)])
    show "err (final i) = Some (InvalidInternalKeyKind InternalKeyKindMerge)"
      by (rule Next_error_stops(3) [OF f n(2)])
  }
qed

theorem LogData_rejected_never_emitted_witness:
  "Kind (MakeInternalKey [97] 1 InternalKeyKindLogData) = InternalKeyKindLogData \<and>
   outputs ((newCompactionIter never_elide)\<lparr>iter :=
      [(MakeInternalKey [97] 1 InternalKeyKindLogData, [120])]\<rparr>) = [] \<and>
   err (final ((newCompactionIter never_elide)\<lparr>iter :=
      [(MakeInternalKey [97] 1 InternalKeyKindLogData, [120])]\<rparr>))
     = Some (InvalidInternalKeyKind InternalKeyKindLogData) \<and>
   outputs ((newCompactionIter never_elide)\<lparr>iter :=
      [(MakeInternalKey [97] 2 InternalKeyKindMerge, [121]),
       (MakeInternalKey [97] 1 InternalKeyKindLogData, [120])]\<rparr>) = [] \<and>
   err (final ((newCompactionIter never_elide)\<lparr>iter :=
      [(MakeInternalKey [97] 2 InternalKeyKindMerge, [121]),
       (MakeInternalKey [97] 1 InternalKeyKindLogData, [120])]\<rparr>))
     = Some (InvalidInternalKeyKind InternalKeyKindMerge) \<and>
   outputs ((newCompactionIter never_elide)\<lparr>iter :=
      [(MakeInternalKey [97] 2 InternalKeyKindSet, [121]),
       (MakeInternalKey [97] 1 InternalKeyKindLogData, [120])]\<rparr>)
     = [(MakeInternalKey [97] 2 InternalKeyKindSet, [121])] \<and>
   Kind (fst (MakeInternalKey [97] 2 InternalKeyKindSet, [121 :: 8 word])) \<noteq> InternalKeyKindLogData"
proof -
  let ?k = "MakeInternalKey [97] 1 InternalKeyKindLogData"
  let ?i = "(newCompactionIter never_elide)\<lparr>iter := [(?k, [120])]\<rparr>"
  let ?km = "MakeInternalKey [97] 2 InternalKeyKindMerge"
  let ?i2 = "(newCompactionIter never_elide)\<lparr>iter := [(?km, [121]), (?k, [120])]\<rparr>"
  let ?ks = "MakeInternalKey [97] 2 InternalKeyKindSet"
  let ?j = "(newCompactionIter never_elide)\<lparr>iter := [(?ks, [121]), (?k, [120])]\<rparr>"
  have kk: "Kind ?k = InternalKeyKindLogData" by (rule Kind_MakeInternalKey)
  have e: "err ?i = None" "err ?i2 = None" by (simp_all add: newCompactionIter_def)
  have p: "(if skip ?i then iter_NextUserKey (cmp ?i) (iter ?i) else iter ?i) = (?k, [120]) # []"
    by (simp add: newCompactionIter_def)
  have q: "(if skip ?i2 then iter_NextUserKey (cmp ?i2) (iter ?i2) else iter ?i2)
      = (?km, [121]) # [] @ (?k, [120]) # [] \<and>
     Kind ?km = InternalKeyKindMerge \<and>
     (\<forall>e\<in>set []. Kind (fst e) = InternalKeyKindMerge \<and>
        cmp ?i2 (UserKey ?km) (UserKey (fst e)) = 0) \<and>
     cmp ?i2 (UserKey ?km) (UserKey ?k) = 0"
    by (simp add: newCompactionIter_def Kind_MakeInternalKey) (simp add: MakeInternalKey_def)
  have o: "outputs ?j = [(?ks, [121])]" by code_simp
  note t1 = LogData_rejected_never_emitted [OF kk e(1), where j = ?j and v = "[120]" and rest = "[]"]
  note t2 = LogData_rejected_never_emitted [OF kk e(2), where j = ?j and km = ?km and vm = "[121]"
      and ms = "[]" and v = "[120]" and rest = "[]"]
  from t1 o have "Kind (fst (?ks, [121 :: 8 word])) \<noteq> InternalKeyKindLogData" by simp
  with t1 p t2 q o kk show ?thesis by blast
qed

text \<open>
  C2 as stated fails: on an input that is a single LogData record the run ends with no
  output and with the error latched, where the claim has the record skipped without an
  error.
\<close>

theorem LogData_error_counterexample:
  "compaction (newCompactionIter never_elide)
     [(MakeInternalKey [97] 1 InternalKeyKindLogData, [120])]
     = ([], Some (InvalidInternalKeyKind InternalKeyKindLogData))"
  by code_simp

subsection \<open>Merge chains\<close>

text \<open>
  C4, as the code has it. When the record a call of \<open>Next\<close> reaches first (the newest
  record of its user key that the iterator has not skipped) is a Merge record, followed
  by Merge records of the same user key and then a Set record of that user key, the
  call emits one record: its key is the first Merge key with the kind replaced by Set
  (user key and sequence number kept), its value is
  \<open>merge(key, accumulated, set_value)\<close> with \<open>accumulated\<close> the fold of the Merge
  values from the newest on. The rest of the user key is skipped. In every run, the key
  of an emitted record is the key of an input record, as it is or, for a Merge key, with
  the kind replaced by Set: no other change of kind occurs. (The iterator has no
  snapshot stripes: the records of one user key form a single stripe.)
\<close>

theorem merge_chain_Set_barrier:
  assumes "err i = None"
    and "(if skip i then iter_NextUserKey (cmp i) (iter i) else iter i) = (km, vm) # ms @ (ks, vs) # rest"
    and "Kind km = InternalKeyKindMerge"
    and "\<forall>e\<in>set ms. Kind (fst e) = InternalKeyKindMerge \<and> cmp i (UserKey km) (UserKey (fst e)) = 0"
    and "Kind ks = InternalKeyKindSet" and "cmp i (UserKey km) (UserKey ks) = 0"
  shows "outputs i =
           (SetKind km InternalKeyKindSet,
            merge i (UserKey km)
              (foldl (\<lambda>acc v. merge i (UserKey km) acc v []) vm (map snd ms)) vs []) #
           outputs (i\<lparr>skip := False, iter := iter_NextUserKey (cmp i) ((ks, vs) # rest)\<rparr>) \<and>
         err (final i) =
           err (final (i\<lparr>skip := False, iter := iter_NextUserKey (cmp i) ((ks, vs) # rest)\<rparr>)) \<and>
         Kind (SetKind km InternalKeyKindSet) = InternalKeyKindSet \<and>
         SeqNum (SetKind km InternalKeyKindSet) = SeqNum km \<and>
         UserKey (SetKind km InternalKeyKindSet) = UserKey km \<and>
         (\<forall>r\<in>set (outputs j). \<exists>e\<in>set (iter j).
            fst r = fst e \<or>
            Kind (fst e) = InternalKeyKindMerge \<and> fst r = SetKind (fst e) InternalKeyKindSet)"
proof -
  let ?val = "merge i (UserKey km) (foldl (\<lambda>acc v. merge i (UserKey km) acc v []) vm (map snd ms)) vs []"
  let ?s = "i\<lparr>skip := True, iter := (ks, vs) # rest, valid := True,
           key := SetKind km InternalKeyKindSet, value := ?val\<rparr>"
  have n: "Next i = (True, ?s)"
    by (rule Next_Merge_chain_Set [OF assms])
  have o: "outputs i = (SetKind km InternalKeyKindSet, ?val) # outputs ?s"
    by (subst outputs.simps) (simp add: n)
  have f: "final i = final ?s"
    by (subst final.simps) (simp add: n)
  have src: "\<forall>r\<in>set (outputs j). \<exists>e\<in>set (iter j).
            fst r = fst e \<or>
            Kind (fst e) = InternalKeyKindMerge \<and> fst r = SetKind (fst e) InternalKeyKindSet"
    using outputs_source [of _ j] by blast
  show ?thesis
    unfolding o f outputs_canon [OF assms(1)]
    using src by (simp add: Kind_SetKind SeqNum_SetKind UserKey_SetKind)
qed

theorem merge_chain_Set_barrier_witness:
  "outputs ((newCompactionIter never_elide)\<lparr>iter := example_E4\<rparr>)
     = [(MakeInternalKey [97] 4 InternalKeyKindSet, [100, 99, 98])] \<and>
   err (final ((newCompactionIter never_elide)\<lparr>iter := example_E4\<rparr>)) = None \<and>
   Kind (MakeInternalKey [97] 4 InternalKeyKindMerge) = InternalKeyKindMerge \<and>
   MakeInternalKey [97] 4 InternalKeyKindSet
     = SetKind (MakeInternalKey [97] 4 InternalKeyKindMerge) InternalKeyKindSet"
proof -
  let ?km = "MakeInternalKey [97] 4 InternalKeyKindMerge"
  let ?k3 = "MakeInternalKey [97] 3 InternalKeyKindMerge"
  let ?ks = "MakeInternalKey [97] 2 InternalKeyKindSet"
  let ?k1 = "MakeInternalKey [97] 1 InternalKeyKindMerge"
  let ?i = "(newCompactionIter never_elide)\<lparr>iter := example_E4\<rparr>"
  have e: "err ?i = None" by (simp add: newCompactionIter_def)
  have p: "(if skip ?i then iter_NextUserKey (cmp ?i) (iter ?i) else iter ?i)
             = (?km, [100]) # [(?k3, [99])] @ (?ks, [98]) # [(?k1, [97])]"
    by (simp add: newCompactionIter_def example_E4_def)
  have k: "Kind ?km = InternalKeyKindMerge" "Kind ?ks = InternalKeyKindSet"
    by (rule Kind_MakeInternalKey)+
  have m: "\<forall>e\<in>set [(?k3, [99 :: 8 word])]. Kind (fst e) = InternalKeyKindMerge \<and>
             cmp ?i (UserKey ?km) (UserKey (fst e)) = 0"
    by (simp add: Kind_MakeInternalKey newCompactionIter_def) (simp add: MakeInternalKey_def)
  have c: "cmp ?i (UserKey ?km) (UserKey ?ks) = 0"
    by (simp add: newCompactionIter_def MakeInternalKey_def)
  have r: "outputs (?i\<lparr>skip := False, iter := iter_NextUserKey (cmp ?i) ((?ks, [98]) # [(?k1, [97])])\<rparr>) = []"
    by code_simp
  have r': "err (final (?i\<lparr>skip := False, iter := iter_NextUserKey (cmp ?i) ((?ks, [98]) # [(?k1, [97])])\<rparr>)) = None"
    by code_simp
  have s: "SetKind ?km InternalKeyKindSet = MakeInternalKey [97] 4 InternalKeyKindSet"
    by (simp add: SetKind_def MakeInternalKey_def)
  have v: "merge ?i (UserKey ?km) (foldl (\<lambda>acc v. merge ?i (UserKey ?km) acc v []) [100] (map snd [(?k3, [99 :: 8 word])])) [98] []
             = [100, 99, 98]"
    by (simp add: newCompactionIter_def concat_merge_def)
  from merge_chain_Set_barrier [OF e p k(1) m k(2) c]
  show ?thesis unfolding r r' s v using k(1) by simp
qed

text \<open>
  C4 as stated fails for a chain that is not reached first. On the input
  \<open>a.SET.9 a.MERGE.4 a.MERGE.3 a.SET.2\<close> the chain \<open>a.MERGE.4 a.MERGE.3 a.SET.2\<close> lies
  within one user key and ends at a Set, yet only \<open>a.SET.9\<close> is emitted: after the Set
  the next call skips to the following user key and never reads the chain, so no record
  \<open>a.SET.4\<close> with the merged value appears.
\<close>

theorem merge_chain_shadowed_counterexample:
  "compaction (newCompactionIter never_elide)
     [(MakeInternalKey [97] 9 InternalKeyKindSet, [88]),
      (MakeInternalKey [97] 4 InternalKeyKindMerge, [100]),
      (MakeInternalKey [97] 3 InternalKeyKindMerge, [99]),
      (MakeInternalKey [97] 2 InternalKeyKindSet, [98])]
     = ([(MakeInternalKey [97] 9 InternalKeyKindSet, [88])], None)"
  by code_simp

subsection \<open>Sequence numbers are never inspected\<close>

lemma Kind_mapSeqNum: "Kind (mapSeqNum h k) = Kind k"
  by (simp add: mapSeqNum_def Kind_MakeInternalKey)

lemma UserKey_mapSeqNum: "UserKey (mapSeqNum h k) = UserKey k"
  by (simp add: mapSeqNum_def MakeInternalKey_def)

lemma push_bit_OR_kind: "(push_bit 8 (x :: 64 word) OR ucast (y :: 8 word)) AND NOT (mask 8) = push_bit 8 x"
  apply (rule bit_word_eqI)
  apply (auto simp: bit_simps dest: bit_imp_le_length)
  done

lemma push_bit_OR_kind': "(push_bit 8 (x :: 64 word) OR ucast (y :: 8 word)) AND - 256 = push_bit 8 x"
proof -
  have "(- 256 :: 64 word) = NOT (mask 8)"
    by (simp add: mask_eq_exp_minus_1)
  then show ?thesis by (simp only: push_bit_OR_kind)
qed

lemma SetKind_mapSeqNum: "SetKind (mapSeqNum h k) kd = mapSeqNum h (SetKind k kd)"
proof -
  have "SetKind (mapSeqNum h k) kd
          = \<lparr>UserKey = UserKey k, trailer = push_bit 8 (h (SeqNum k)) OR ucast kd\<rparr>"
    by (simp add: SetKind_def mapSeqNum_def MakeInternalKey_def push_bit_OR_kind')
  also have "\<dots> = mapSeqNum h (SetKind k kd)"
    by (simp add: mapSeqNum_def MakeInternalKey_def Kind_SetKind SeqNum_SetKind UserKey_SetKind)
  finally show ?thesis .
qed

lemma mapSeqNum_UserKey_update:
  "(mapSeqNum h k)\<lparr>UserKey := u\<rparr> = mapSeqNum h (k\<lparr>UserKey := u\<rparr>)"
  by (simp add: mapSeqNum_def MakeInternalKey_def SeqNum_def Kind_def)

lemma iter_Next_map: "iter_Next (map f it) = map f (iter_Next it)"
  by (simp add: iter_Next_def map_tl)

lemma iter_NextUserKey_map:
  "iter_NextUserKey c (map (mapSeqNum_entry h) it) = map (mapSeqNum_entry h) (iter_NextUserKey c it)"
  by (cases it)
     (simp_all add: iter_NextUserKey_def dropWhile_map mapSeqNum_entry_def UserKey_mapSeqNum comp_def)

lemma retag_fields:
  "cmp (retag h i) = cmp i" "merge (retag h i) = merge i" "err (retag h i) = err i"
  "value (retag h i) = value i" "valid (retag h i) = valid i" "skip (retag h i) = skip i"
  "elideTombstone (retag h i) = elideTombstone i"
  "key (retag h i) = mapSeqNum h (key i)" "iter (retag h i) = map (mapSeqNum_entry h) (iter i)"
  by (simp_all add: retag_def)

lemma mergeNext_loop_retag:
  "mergeNext_loop (retag h i) = (fst (mergeNext_loop i), retag h (snd (mergeNext_loop i)))"
proof (induction i rule: mergeNext_loop.induct)
  case (1 i)
  show ?case
  proof (cases "iter_Next (iter i)")
    case Nil
    then have n: "iter_Next (iter (retag h i)) = []"
      by (simp add: retag_fields iter_Next_map)
    show ?thesis
      unfolding mergeNext_loop_end [OF Nil] mergeNext_loop_end [OF n]
      by (simp add: retag_def)
  next
    case (Cons e rest)
    let ?e = "mapSeqNum_entry h e" and ?rest = "map (mapSeqNum_entry h) rest"
    have n: "iter_Next (iter (retag h i)) = ?e # ?rest"
      using Cons by (simp add: retag_fields iter_Next_map)
    have c: "cmp (retag h i) (UserKey (key (retag h i))) (UserKey (fst ?e))
               = cmp i (UserKey (key i)) (UserKey (fst e))"
      by (simp add: retag_fields mapSeqNum_entry_def UserKey_mapSeqNum)
    have k: "Kind (fst ?e) = Kind (fst e)"
      by (simp add: mapSeqNum_entry_def Kind_mapSeqNum)
    consider (other_key) "cmp i (UserKey (key i)) (UserKey (fst e)) \<noteq> 0"
      | (del) "cmp i (UserKey (key i)) (UserKey (fst e)) = 0" "Kind (fst e) = InternalKeyKindDelete"
      | (set) "cmp i (UserKey (key i)) (UserKey (fst e)) = 0" "Kind (fst e) = InternalKeyKindSet"
      | (merge) "cmp i (UserKey (key i)) (UserKey (fst e)) = 0" "Kind (fst e) = InternalKeyKindMerge"
      | (other) "cmp i (UserKey (key i)) (UserKey (fst e)) = 0" "Kind (fst e) \<noteq> InternalKeyKindDelete"
          "Kind (fst e) \<noteq> InternalKeyKindSet" "Kind (fst e) \<noteq> InternalKeyKindMerge"
      by blast
    then show ?thesis
    proof cases
      case other_key
      then have o: "cmp (retag h i) (UserKey (key (retag h i))) (UserKey (fst ?e)) \<noteq> 0"
        by (simp add: c)
      show ?thesis
        unfolding mergeNext_loop_other_key [OF Cons other_key] mergeNext_loop_other_key [OF n o]
        by (simp add: retag_def)
    next
      case del
      from del have o: "cmp (retag h i) (UserKey (key (retag h i))) (UserKey (fst ?e)) = 0"
        "Kind (fst ?e) = InternalKeyKindDelete"
        by (simp_all add: c k)
      show ?thesis
        unfolding mergeNext_loop_Delete [OF Cons del] mergeNext_loop_Delete [OF n o]
        by (simp add: retag_def)
    next
      case set
      from set have o: "cmp (retag h i) (UserKey (key (retag h i))) (UserKey (fst ?e)) = 0"
        "Kind (fst ?e) = InternalKeyKindSet"
        by (simp_all add: c k)
      show ?thesis
        unfolding mergeNext_loop_Set [OF Cons set] mergeNext_loop_Set [OF n o]
        by (simp add: retag_def SetKind_mapSeqNum UserKey_mapSeqNum mapSeqNum_entry_def)
    next
      case merge
      from merge have o: "cmp (retag h i) (UserKey (key (retag h i))) (UserKey (fst ?e)) = 0"
        "Kind (fst ?e) = InternalKeyKindMerge"
        by (simp_all add: c k)
      let ?i' = "i\<lparr>iter := e # rest, value := merge i (UserKey (key i)) (value i) (snd e) []\<rparr>"
      have x: "(retag h i)\<lparr>iter := ?e # ?rest,
                  value := merge (retag h i) (UserKey (key (retag h i))) (value (retag h i)) (snd ?e) []\<rparr>
               = retag h ?i'"
        by (simp add: retag_def UserKey_mapSeqNum mapSeqNum_entry_def)
      have ih: "mergeNext_loop (retag h ?i') = (fst (mergeNext_loop ?i'), retag h (snd (mergeNext_loop ?i')))"
        using "1.IH" [OF Cons] merge by simp
      show ?thesis
        unfolding mergeNext_loop_Merge [OF Cons merge] mergeNext_loop_Merge [OF n o] x
        by (rule ih)
    next
      case other
      from other have o: "cmp (retag h i) (UserKey (key (retag h i))) (UserKey (fst ?e)) = 0"
        "Kind (fst ?e) \<noteq> InternalKeyKindDelete" "Kind (fst ?e) \<noteq> InternalKeyKindSet"
        "Kind (fst ?e) \<noteq> InternalKeyKindMerge"
        by (simp_all add: c k)
      show ?thesis
        unfolding mergeNext_loop_other [OF Cons other] mergeNext_loop_other [OF n o]
        by (simp add: retag_def Kind_mapSeqNum)
    qed
  qed
qed

lemma Next_loop_retag:
  "Next_loop (retag h i) = (fst (Next_loop i), retag h (snd (Next_loop i)))"
proof (induction i rule: Next_loop.induct)
  case (1 i)
  show ?case
  proof (cases "iter i")
    case Nil
    then have n: "iter (retag h i) = []" by (simp add: retag_fields)
    show ?thesis
      unfolding Next_loop_Nil [OF Nil] Next_loop_Nil [OF n] by simp
  next
    case (Cons e rest)
    let ?e = "mapSeqNum_entry h e" and ?rest = "map (mapSeqNum_entry h) rest"
    have n: "iter (retag h i) = ?e # ?rest"
      using Cons by (simp add: retag_fields)
    have k: "Kind (fst ?e) = Kind (fst e)"
      by (simp add: mapSeqNum_entry_def Kind_mapSeqNum)
    have el: "elideTombstone (retag h i) (UserKey (fst ?e)) = elideTombstone i (UserKey (fst e))"
      by (simp add: retag_fields mapSeqNum_entry_def UserKey_mapSeqNum)
    consider (del_elide) "Kind (fst e) = InternalKeyKindDelete" "elideTombstone i (UserKey (fst e))"
      | (del_emit) "Kind (fst e) = InternalKeyKindDelete" "\<not> elideTombstone i (UserKey (fst e))"
      | (set) "Kind (fst e) = InternalKeyKindSet"
      | (merge) "Kind (fst e) = InternalKeyKindMerge"
      | (other) "Kind (fst e) \<noteq> InternalKeyKindDelete" "Kind (fst e) \<noteq> InternalKeyKindSet"
          "Kind (fst e) \<noteq> InternalKeyKindMerge"
      by blast
    then show ?thesis
    proof cases
      case del_elide
      from del_elide have o: "Kind (fst ?e) = InternalKeyKindDelete"
        "elideTombstone (retag h i) (UserKey (fst ?e))"
        by (simp_all add: k el)
      let ?i' = "i\<lparr>key := fst e, iter := iter_NextUserKey (cmp i) (iter i)\<rparr>"
      have x: "(retag h i)\<lparr>key := fst ?e,
                  iter := iter_NextUserKey (cmp (retag h i)) (iter (retag h i))\<rparr> = retag h ?i'"
        by (simp add: retag_def iter_NextUserKey_map mapSeqNum_entry_def)
      have ih: "Next_loop (retag h ?i') = (fst (Next_loop ?i'), retag h (snd (Next_loop ?i')))"
        using "1.IH" [OF Cons del_elide] by simp
      show ?thesis
        unfolding Next_loop_Delete_elide [OF Cons del_elide] Next_loop_Delete_elide [OF n o] x
        by (rule ih)
    next
      case del_emit
      from del_emit have o: "Kind (fst ?e) = InternalKeyKindDelete"
        "\<not> elideTombstone (retag h i) (UserKey (fst ?e))"
        by (simp_all add: k el)
      show ?thesis
        unfolding Next_loop_Delete_emit [OF Cons del_emit] Next_loop_Delete_emit [OF n o]
        by (simp add: retag_def mapSeqNum_entry_def)
    next
      case set
      from set have o: "Kind (fst ?e) = InternalKeyKindSet"
        by (simp_all add: k)
      show ?thesis
        unfolding Next_loop_Set [OF Cons set] Next_loop_Set [OF n o]
        by (simp add: retag_def mapSeqNum_entry_def)
    next
      case merge
      from merge have o: "Kind (fst ?e) = InternalKeyKindMerge"
        by (simp_all add: k)
      let ?m = "i\<lparr>key := fst e, value := snd e, valid := True, skip := True\<rparr>"
      have x: "(retag h i)\<lparr>key := fst ?e, value := snd ?e, valid := True, skip := True\<rparr> = retag h ?m"
        by (simp add: retag_def mapSeqNum_entry_def)
      show ?thesis
        unfolding Next_loop_Merge [OF Cons merge] Next_loop_Merge [OF n o] x
        by (rule mergeNext_loop_retag)
    next
      case other
      from other have o: "Kind (fst ?e) \<noteq> InternalKeyKindDelete" "Kind (fst ?e) \<noteq> InternalKeyKindSet"
        "Kind (fst ?e) \<noteq> InternalKeyKindMerge"
        by (simp_all add: k)
      show ?thesis
        unfolding Next_loop_other [OF Cons other] Next_loop_other [OF n o]
        by (simp add: retag_def mapSeqNum_entry_def Kind_mapSeqNum)
    qed
  qed
qed

lemma Next_retag: "Next (retag h i) = (fst (Next i), retag h (snd (Next i)))"
proof (cases "err i = None")
  case False
  then show ?thesis by (simp add: Next_def retag_fields)
next
  case True
  define it where "it = (if skip i then iter_NextUserKey (cmp i) (iter i) else iter i)"
  let ?j = "i\<lparr>skip := False, iter := it, valid := False\<rparr>"
  have a: "Next i = Next_loop ?j"
    by (rule Next_reach [OF True]) (simp add: it_def)
  have e: "err (retag h i) = None" using True by (simp add: retag_fields)
  have b: "Next (retag h i)
      = Next_loop ((retag h i)\<lparr>skip := False, iter := map (mapSeqNum_entry h) it, valid := False\<rparr>)"
    by (rule Next_reach [OF e]) (simp add: it_def retag_fields iter_NextUserKey_map)
  have x: "(retag h i)\<lparr>skip := False, iter := map (mapSeqNum_entry h) it, valid := False\<rparr> = retag h ?j"
    by (simp add: retag_def)
  show ?thesis unfolding a b x by (rule Next_loop_retag)
qed

lemma outputs_retag: "outputs (retag h i) = map (mapSeqNum_entry h) (outputs i)"
proof (induction i rule: outputs.induct)
  case (1 i)
  show ?case
  proof (cases "fst (Next i)")
    case True
    have "outputs (retag h i)
            = (key (retag h (snd (Next i))), value (retag h (snd (Next i)))) # outputs (retag h (snd (Next i)))"
      using True by (subst outputs.simps) (simp add: Next_retag)
    also have "\<dots> = mapSeqNum_entry h (key (snd (Next i)), value (snd (Next i)))
                      # map (mapSeqNum_entry h) (outputs (snd (Next i)))"
      by (simp add: "1.IH" [OF True] retag_fields mapSeqNum_entry_def)
    also have "\<dots> = map (mapSeqNum_entry h) (outputs i)"
      using True by (subst (2) outputs.simps) simp
    finally show ?thesis .
  next
    case False
    then have "\<not> fst (Next (retag h i))" by (simp add: Next_retag)
    with False show ?thesis by (simp add: outputs_stop)
  qed
qed

lemma final_retag: "err (final (retag h i)) = err (final i)"
proof (induction i rule: final.induct)
  case (1 i)
  show ?case
  proof (cases "fst (Next i)")
    case True
    have "final (retag h i) = final (retag h (snd (Next i)))"
      using True by (subst final.simps) (simp add: Next_retag)
    moreover have "final i = final (snd (Next i))"
      using True by (subst final.simps) simp
    ultimately show ?thesis using "1.IH" [OF True] by simp
  next
    case False
    then have "\<not> fst (Next (retag h i))" by (simp add: Next_retag)
    with False show ?thesis by (simp add: final_stop Next_retag retag_fields)
  qed
qed

text \<open>
  C3, as the code has it. The iterator decides by user key and kind alone and copies the
  trailer of the record it emits; bit 55 of a sequence number is never read. So a
  batch-tagged record is shadowed, collapsed or elided like any other, and replacing
  every sequence number \<open>s\<close> of the input by \<open>h s\<close>, for any \<open>h\<close> (setting bit 55, for
  one), changes the output by that same replacement in the emitted keys and nothing
  else; the latched error is the same.
\<close>

theorem compaction_ignores_sequence_numbers:
  "compaction i (map (mapSeqNum_entry h) input)
     = (map (mapSeqNum_entry h) (fst (compaction i input)), snd (compaction i input))"
proof (cases "err i = None")
  case False
  then show ?thesis by (auto simp: compaction_def First_def)
next
  case True
  let ?j = "i\<lparr>iter := input\<rparr>"
  have x: "i\<lparr>iter := map (mapSeqNum_entry h) input\<rparr> = (retag h ?j)\<lparr>key := key i, value := value i\<rparr>"
    by (simp add: retag_def)
  have o: "outputs (i\<lparr>iter := map (mapSeqNum_entry h) input\<rparr>) = map (mapSeqNum_entry h) (outputs ?j)"
    unfolding x outputs_key_value by (rule outputs_retag)
  have f: "err (final (i\<lparr>iter := map (mapSeqNum_entry h) input\<rparr>)) = err (final ?j)"
    unfolding x final_key_value by (rule final_retag)
  show ?thesis
    unfolding compaction_outputs [OF True] o f by simp
qed

theorem compaction_ignores_sequence_numbers_witness:
  "compaction (newCompactionIter never_elide)
     (map (mapSeqNum_entry set_batch_bit)
        [(MakeInternalKey [97] 3 InternalKeyKindSet, [88]),
         (MakeInternalKey [97] 1 InternalKeyKindSet, [89])])
     = ([(MakeInternalKey [97] (InternalKeySeqNumBatch + 3) InternalKeyKindSet, [88])], None)"
proof -
  have c: "compaction (newCompactionIter never_elide)
        [(MakeInternalKey [97] 3 InternalKeyKindSet, [88]),
         (MakeInternalKey [97] 1 InternalKeyKindSet, [89])]
     = ([(MakeInternalKey [97] 3 InternalKeyKindSet, [88])], None)"
    by code_simp
  have m: "mapSeqNum_entry set_batch_bit (MakeInternalKey [97] 3 InternalKeyKindSet, [88])
             = (MakeInternalKey [97] (InternalKeySeqNumBatch + 3) InternalKeyKindSet, [88])"
    by code_simp
  show ?thesis
    unfolding compaction_ignores_sequence_numbers c using m by simp
qed

text \<open>
  C3 as stated fails: of two Set records for one user key, both with bit 55 set in the
  sequence number, only the newer is emitted; the older one is shadowed.
\<close>

theorem batch_shadowed_counterexample:
  "SeqNum (MakeInternalKey [97] (InternalKeySeqNumBatch + 3) InternalKeyKindSet) AND InternalKeySeqNumBatch \<noteq> 0 \<and>
   SeqNum (MakeInternalKey [97] (InternalKeySeqNumBatch + 1) InternalKeyKindSet) AND InternalKeySeqNumBatch \<noteq> 0 \<and>
   compaction (newCompactionIter never_elide)
     [(MakeInternalKey [97] (InternalKeySeqNumBatch + 3) InternalKeyKindSet, [88]),
      (MakeInternalKey [97] (InternalKeySeqNumBatch + 1) InternalKeyKindSet, [89])]
     = ([(MakeInternalKey [97] (InternalKeySeqNumBatch + 3) InternalKeyKindSet, [88])], None)"
  by code_simp

end
